theory Spec2Isabelle
  imports Main "HOL-Library.Word" "HOL-Library.Signed_Division"
begin

section \<open>Cached values and their optional capabilities (lru\_cache\_interface.go)\<close>

text \<open>
  Go's \<^verbatim>\<open>int64\<close> is a 64-bit word: \<open>+\<close> and \<open>-\<close> wrap around and the comparisons
  of the source are the signed ones (\<open><s\<close>, \<open>\<le>s\<close>). Go's \<^verbatim>\<open>int\<close> is taken at its
  64-bit width.
\<close>

type_synonym int64 = "64 word"

datatype PurgeReason =
    PURGE_REASON_CACHEFULL
  | PURGE_REASON_DELETE
  | PURGE_REASON_UPDATE
  | PURGE_REASON_CLEAR_ALL

text \<open>
  \<^verbatim>\<open>Cacheable\<close> is \<^verbatim>\<open>interface{}\<close>: anything, \<^verbatim>\<open>nil\<close> included. Of a stored object the
  engine only ever asks two things, by type assertion: whether it implements
  \<^verbatim>\<open>SizeAware\<close> (and then what \<^verbatim>\<open>Size()\<close> answers, converted to \<^verbatim>\<open>int64\<close>), and whether
  it implements \<^verbatim>\<open>OnPurger\<close>. An object is therefore its identity together with these
  two optional capabilities. \<^verbatim>\<open>Size()\<close> answers the same number at every call, as the
  interface asks of it (any number: 0 and negative ones too), and neither \<^verbatim>\<open>Size()\<close> nor
  \<^verbatim>\<open>OnPurge\<close> calls back into the engine.
\<close>

datatype Cacheable =
    NilValue
  | Obj (obj_id: nat) (obj_Size: "int64 option") (obj_OnPurger: bool)

definition sizeAware :: "Cacheable \<Rightarrow> int64 option" where
  "sizeAware x = (case x of NilValue \<Rightarrow> None | Obj _ sz _ \<Rightarrow> sz)"

definition onPurger :: "Cacheable \<Rightarrow> bool" where
  "onPurger x = (case x of NilValue \<Rightarrow> False | Obj _ _ p \<Rightarrow> p)"

definition getSize :: "Cacheable \<Rightarrow> int64" where
  "getSize x = (case sizeAware x of Some s \<Rightarrow> s | None \<Rightarrow> 1)"

text \<open>
  The calls of \<^verbatim>\<open>OnPurge\<close> are the engine's only effect outside its own state. They are
  recorded, in the order they are made, as pairs of the receiving value and the reason.
\<close>

type_synonym purgeLog = "(Cacheable \<times> PurgeReason) list"

definition safeOnPurge :: "Cacheable \<Rightarrow> PurgeReason \<Rightarrow> purgeLog \<Rightarrow> purgeLog" where
  "safeOnPurge c why calls = (if onPurger c then calls @ [(c, why)] else calls)"

section \<open>The engine (lru\_cache\_int.go)\<close>

type_synonym key = "64 word"

record intEntry =
  entry_key :: key
  entry_value :: Cacheable
  entry_size :: int64

text \<open>
  A \<^verbatim>\<open>*list.Element\<close> is an address. \<open>lru_list\<close> is the doubly linked list read from
  front to back, \<open>lru_table\<close> the Go map from keys to elements (\<open>None\<close> is the \<^verbatim>\<open>nil\<close>
  a missing key reads as), and \<open>lru_elems\<close> the store giving the \<^verbatim>\<open>intEntry\<close> that an
  element's \<^verbatim>\<open>Value\<close> points to; memory never allocated reads as the zero entry.
  \<open>lru_alloc\<close> is the next address \<^verbatim>\<open>PushFront\<close> hands out and \<open>lru_purged\<close> the record
  of the \<^verbatim>\<open>OnPurge\<close> calls made so far. The miss-loader is a function of the key. The
  mutex is not modelled: every operation runs from start to end alone.
\<close>

type_synonym element = nat

type_synonym OnMissHandlerInt = "key \<Rightarrow> Cacheable \<times> bool"

record LRUCacheInt =
  lru_list :: "element list"
  lru_table :: "key \<rightharpoonup> element"
  lru_size :: int64
  lru_capacity :: int64
  lru_onMiss :: "OnMissHandlerInt option"
  lru_elems :: "element \<Rightarrow> intEntry"
  lru_alloc :: element
  lru_purged :: purgeLog

datatype Panic = NilPointerDereference | IndexOutOfRange | IntegerDivideByZero

subsection \<open>The operations of container/list that the engine uses\<close>

definition list_PushFront :: "element \<Rightarrow> element list \<Rightarrow> element list" where
  "list_PushFront e l = e # l"

definition list_MoveToFront :: "element \<Rightarrow> element list \<Rightarrow> element list" where
  "list_MoveToFront e l = (if e \<in> set l then e # remove1 e l else l)"

definition list_Remove :: "element \<Rightarrow> element list \<Rightarrow> element list" where
  "list_Remove e l = remove1 e l"

definition list_Back :: "element list \<Rightarrow> element option" where
  "list_Back l = (case l of [] \<Rightarrow> None | _ # _ \<Rightarrow> Some (last l))"

subsection \<open>Construction and the private helpers\<close>

definition zeroEntry :: intEntry where
  "zeroEntry = \<lparr>entry_key = 0, entry_value = NilValue, entry_size = 0\<rparr>"

definition NewLRUCacheInt :: "int64 \<Rightarrow> LRUCacheInt" where
  "NewLRUCacheInt capacity =
     \<lparr>lru_list = [], lru_table = Map.empty, lru_size = 0, lru_capacity = capacity,
      lru_onMiss = None, lru_elems = (\<lambda>_. zeroEntry), lru_alloc = 0, lru_purged = []\<rparr>"

text \<open>
  One turn of the loop of \<^verbatim>\<open>checkCapacity\<close>, for the element \<open>delElem\<close> that
  \<^verbatim>\<open>list.Back()\<close> returned.
\<close>

definition evictElem :: "element \<Rightarrow> LRUCacheInt \<Rightarrow> LRUCacheInt" where
  "evictElem delElem lru =
     (let delValue = lru_elems lru delElem
      in lru\<lparr>lru_list := list_Remove delElem (lru_list lru),
             lru_table := (lru_table lru)(entry_key delValue := None),
             lru_size := lru_size lru - entry_size delValue,
             lru_purged := safeOnPurge (entry_value delValue) PURGE_REASON_CACHEFULL
                             (lru_purged lru)\<rparr>)"

text \<open>
  \<^verbatim>\<open>for lru.size > lru.capacity { ... }\<close>. On an empty list \<^verbatim>\<open>Back()\<close> is \<^verbatim>\<open>nil\<close> and
  reading \<^verbatim>\<open>delElem.Value\<close> panics.
\<close>

function checkCapacity :: "LRUCacheInt \<Rightarrow> Panic + LRUCacheInt" where
  "checkCapacity lru =
     (if lru_capacity lru <s lru_size lru then
        (case list_Back (lru_list lru) of
           None \<Rightarrow> Inl NilPointerDereference
         | Some delElem \<Rightarrow> checkCapacity (evictElem delElem lru))
      else Inr lru)"
  by pat_completeness auto
termination
  by (relation "measure (\<lambda>lru. length (lru_list lru))")
     (auto simp: evictElem_def Let_def list_Back_def list_Remove_def length_remove1
           split: list.splits)

declare checkCapacity.simps [simp del]

definition moveToFront :: "element \<Rightarrow> LRUCacheInt \<Rightarrow> LRUCacheInt" where
  "moveToFront element lru = lru\<lparr>lru_list := list_MoveToFront element (lru_list lru)\<rparr>"

text \<open>The state of \<^verbatim>\<open>addNew\<close> when it reaches its call of \<^verbatim>\<open>checkCapacity\<close>.\<close>

definition addNew_pushed :: "key \<Rightarrow> Cacheable \<Rightarrow> LRUCacheInt \<Rightarrow> LRUCacheInt" where
  "addNew_pushed k v lru =
     (let newEntry = \<lparr>entry_key = k, entry_value = v, entry_size = getSize v\<rparr>;
          element = lru_alloc lru
      in lru\<lparr>lru_list := list_PushFront element (lru_list lru),
             lru_elems := (lru_elems lru)(element := newEntry),
             lru_alloc := Suc element,
             lru_table := (lru_table lru)(k \<mapsto> element),
             lru_size := lru_size lru + entry_size newEntry\<rparr>)"

definition addNew :: "key \<Rightarrow> Cacheable \<Rightarrow> LRUCacheInt \<Rightarrow> Panic + LRUCacheInt" where
  "addNew k v lru = checkCapacity (addNew_pushed k v lru)"

text \<open>The state of \<^verbatim>\<open>updateInplace\<close> when it reaches its call of \<^verbatim>\<open>checkCapacity\<close>.\<close>

definition updateInplace_written :: "element \<Rightarrow> Cacheable \<Rightarrow> LRUCacheInt \<Rightarrow> LRUCacheInt" where
  "updateInplace_written element v lru =
     (let old = lru_elems lru element;
          valueSize = getSize v;
          sizeDiff = valueSize - entry_size old
      in moveToFront element
           (lru\<lparr>lru_purged := safeOnPurge (entry_value old) PURGE_REASON_UPDATE (lru_purged lru),
                lru_elems := (lru_elems lru)
                   (element := old\<lparr>entry_value := v, entry_size := valueSize\<rparr>),
                lru_size := lru_size lru + sizeDiff\<rparr>))"

definition updateInplace :: "element \<Rightarrow> Cacheable \<Rightarrow> LRUCacheInt \<Rightarrow> Panic + LRUCacheInt" where
  "updateInplace element v lru = checkCapacity (updateInplace_written element v lru)"

definition set_lru :: "key \<Rightarrow> Cacheable \<Rightarrow> LRUCacheInt \<Rightarrow> Panic + LRUCacheInt" where
  "set_lru k v lru =
     (case lru_table lru k of
        Some element \<Rightarrow> updateInplace element v lru
      | None \<Rightarrow> addNew k v lru)"

subsection \<open>The public operations\<close>

definition Get :: "key \<Rightarrow> LRUCacheInt \<Rightarrow> Panic + ((Cacheable \<times> bool) \<times> LRUCacheInt)" where
  "Get k lru =
     (case lru_table lru k of
        None \<Rightarrow>
          (case lru_onMiss lru of
             None \<Rightarrow> Inr ((NilValue, False), lru)
           | Some onMiss \<Rightarrow>
               (let (v, ok) = onMiss k
                in if ok then
                     (case set_lru k v lru of
                        Inl p \<Rightarrow> Inl p
                      | Inr lru' \<Rightarrow> Inr ((v, ok), lru'))
                   else Inr ((v, ok), lru)))
      | Some element \<Rightarrow>
          (let lru' = moveToFront element lru
           in Inr ((entry_value (lru_elems lru' element), True), lru')))"

definition Set_lru :: "key \<Rightarrow> Cacheable \<Rightarrow> LRUCacheInt \<Rightarrow> Panic + LRUCacheInt" where
  "Set_lru k v lru = set_lru k v lru"

definition SetIfAbsent :: "key \<Rightarrow> Cacheable \<Rightarrow> LRUCacheInt \<Rightarrow> Panic + LRUCacheInt" where
  "SetIfAbsent k v lru =
     (case lru_table lru k of
        Some element \<Rightarrow> Inr (moveToFront element lru)
      | None \<Rightarrow> addNew k v lru)"

definition Delete :: "key \<Rightarrow> LRUCacheInt \<Rightarrow> bool \<times> LRUCacheInt" where
  "Delete k lru =
     (case lru_table lru k of
        None \<Rightarrow> (False, lru)
      | Some element \<Rightarrow>
          (True,
           lru\<lparr>lru_list := list_Remove element (lru_list lru),
               lru_table := (lru_table lru)(k := None),
               lru_size := lru_size lru - entry_size (lru_elems lru element),
               lru_purged := safeOnPurge (entry_value (lru_elems lru element))
                               PURGE_REASON_DELETE (lru_purged lru)\<rparr>))"

text \<open>The loop of \<^verbatim>\<open>Clear\<close>, from \<^verbatim>\<open>Front()\<close> along \<^verbatim>\<open>Next()\<close>.\<close>

fun purgeAll :: "(element \<Rightarrow> intEntry) \<Rightarrow> element list \<Rightarrow> purgeLog \<Rightarrow> purgeLog" where
  "purgeAll elems [] calls = calls"
| "purgeAll elems (e # es) calls =
     purgeAll elems es (safeOnPurge (entry_value (elems e)) PURGE_REASON_CLEAR_ALL calls)"

definition Clear :: "LRUCacheInt \<Rightarrow> LRUCacheInt" where
  "Clear lru =
     lru\<lparr>lru_purged := purgeAll (lru_elems lru) (lru_list lru) (lru_purged lru),
         lru_list := [],
         lru_table := Map.empty,
         lru_size := 0\<rparr>"

definition SetCapacity :: "int64 \<Rightarrow> LRUCacheInt \<Rightarrow> Panic + LRUCacheInt" where
  "SetCapacity capacity lru = checkCapacity (lru\<lparr>lru_capacity := capacity\<rparr>)"

definition OnMiss :: "OnMissHandlerInt option \<Rightarrow> LRUCacheInt \<Rightarrow> LRUCacheInt" where
  "OnMiss onMiss lru = lru\<lparr>lru_onMiss := onMiss\<rparr>"

definition Length :: "LRUCacheInt \<Rightarrow> int64" where
  "Length lru = word_of_nat (length (lru_list lru))"

definition Size :: "LRUCacheInt \<Rightarrow> int64" where
  "Size lru = lru_size lru"

definition Capacity :: "LRUCacheInt \<Rightarrow> int64" where
  "Capacity lru = lru_capacity lru"

definition Stats :: "LRUCacheInt \<Rightarrow> int64 \<times> int64 \<times> int64" where
  "Stats lru = (word_of_nat (length (lru_list lru)), lru_size lru, lru_capacity lru)"

definition Keys :: "LRUCacheInt \<Rightarrow> key list" where
  "Keys lru = map (\<lambda>e. entry_key (lru_elems lru e)) (lru_list lru)"

definition Values :: "LRUCacheInt \<Rightarrow> Cacheable list" where
  "Values lru = map (\<lambda>e. entry_value (lru_elems lru e)) (lru_list lru)"

definition Items :: "LRUCacheInt \<Rightarrow> (key \<times> Cacheable) list" where
  "Items lru =
     map (\<lambda>e. (entry_key (lru_elems lru e), entry_value (lru_elems lru e))) (lru_list lru)"

section \<open>The shard router\<close>

text \<open>
  The router's shards are engines of the same code with another key type, so the engine
  above stands for them. Go's \<^verbatim>\<open>/\<close> on \<^verbatim>\<open>int64\<close> truncates towards zero and panics on a
  zero divisor, which the callers below check for; the most negative number divided by -1
  wraps around to itself. The allocation of the shard slice is taken to succeed.
\<close>

definition int64_div :: "int64 \<Rightarrow> int64 \<Rightarrow> int64" where
  "int64_div a b = word_of_int (sint a sdiv sint b)"

record ShardLRUCacheKeyUint64 =
  shardCount :: int64
  cachelist :: "LRUCacheInt list"

definition shardCapacityAt :: "int64 \<Rightarrow> int64 \<Rightarrow> int64 \<Rightarrow> nat \<Rightarrow> int64" where
  "shardCapacityAt count shardCap leftCap i =
     (if word_of_nat i = count - 1 then shardCap + leftCap else shardCap)"

definition NewShardLRUCacheKeyUint64 :: "int64 \<Rightarrow> int64 \<Rightarrow> ShardLRUCacheKeyUint64" where
  "NewShardLRUCacheKeyUint64 shardCount0 capacity =
     (let count = (if shardCount0 <s 1 then 1 else shardCount0);
          shardCap = int64_div capacity count;
          leftCap = capacity - shardCap * count
      in \<lparr>shardCount = count,
          cachelist = map (\<lambda>i. NewLRUCacheInt (shardCapacityAt count shardCap leftCap i))
                        [0 ..< nat (sint count)]\<rparr>)"

text \<open>
  The loop of the router's \<^verbatim>\<open>SetCapacity\<close> over \<^verbatim>\<open>i = 0, ..., shardCount - 1\<close>: indexing
  \<^verbatim>\<open>cachelist[i]\<close> beyond the slice panics, and so does a shard whose own
  \<^verbatim>\<open>SetCapacity\<close> panics.
\<close>

fun setShardCapacities ::
  "int64 \<Rightarrow> int64 \<Rightarrow> int64 \<Rightarrow> nat list \<Rightarrow> LRUCacheInt list \<Rightarrow> Panic + LRUCacheInt list" where
  "setShardCapacities count shardCap leftCap [] cl = Inr cl"
| "setShardCapacities count shardCap leftCap (i # is) cl =
     (if i < length cl then
        (case SetCapacity (shardCapacityAt count shardCap leftCap i) (cl ! i) of
           Inl p \<Rightarrow> Inl p
         | Inr c \<Rightarrow> setShardCapacities count shardCap leftCap is (cl[i := c]))
      else Inl IndexOutOfRange)"

definition ShardSetCapacity ::
  "int64 \<Rightarrow> ShardLRUCacheKeyUint64 \<Rightarrow> Panic + ShardLRUCacheKeyUint64" where
  "ShardSetCapacity capacity lru =
     (if shardCount lru = 0 then Inl IntegerDivideByZero
      else
        (let shardCap = int64_div capacity (shardCount lru);
             leftCap = capacity - shardCap * shardCount lru
         in case setShardCapacities (shardCount lru) shardCap leftCap
                   [0 ..< nat (sint (shardCount lru))] (cachelist lru) of
              Inl p \<Rightarrow> Inl p
            | Inr cl \<Rightarrow> Inr (lru\<lparr>cachelist := cl\<rparr>)))"

definition ShardStats :: "ShardLRUCacheKeyUint64 \<Rightarrow> int64 \<times> int64 \<times> int64" where
  "ShardStats lru =
     foldl (\<lambda>(length', size', capacity') shard.
              (case Stats shard of (l, s, c) \<Rightarrow> (length' + l, size' + s, capacity' + c)))
           (0, 0, 0) (cachelist lru)"

definition ShardLength :: "ShardLRUCacheKeyUint64 \<Rightarrow> int64" where
  "ShardLength lru = foldl (\<lambda>length' shard. length' + Length shard) 0 (cachelist lru)"

definition ShardSize :: "ShardLRUCacheKeyUint64 \<Rightarrow> int64" where
  "ShardSize lru = foldl (\<lambda>size' shard. size' + Size shard) 0 (cachelist lru)"

text \<open>The router's \<^verbatim>\<open>Capacity\<close> reads \<^verbatim>\<open>lru.cachelist[idx].Size()\<close>.\<close>

definition ShardCapacity :: "ShardLRUCacheKeyUint64 \<Rightarrow> int64" where
  "ShardCapacity lru = foldl (\<lambda>capacity' shard. capacity' + Size shard) 0 (cachelist lru)"

section \<open>Invariants, and the specification in its own words\<close>

text \<open>
  The index and the list are in bijection: every element of the list is the one the table
  holds for its entry's key, every table entry is an element of the list filed under its
  own key, no element is in the list twice, and \<^verbatim>\<open>PushFront\<close> has a fresh address.
\<close>

definition index_inv :: "LRUCacheInt \<Rightarrow> bool" where
  "index_inv lru \<longleftrightarrow>
     distinct (lru_list lru) \<and>
     (\<forall>e \<in> set (lru_list lru).
        e < lru_alloc lru \<and> lru_table lru (entry_key (lru_elems lru e)) = Some e) \<and>
     (\<forall>k e. lru_table lru k = Some e \<longrightarrow>
        e \<in> set (lru_list lru) \<and> entry_key (lru_elems lru e) = k)"

definition entrySizes :: "LRUCacheInt \<Rightarrow> int64 list" where
  "entrySizes lru = map (\<lambda>e. entry_size (lru_elems lru e)) (lru_list lru)"

definition size_inv :: "LRUCacheInt \<Rightarrow> bool" where
  "size_inv lru \<longleftrightarrow> lru_size lru = sum_list (entrySizes lru)"

text \<open>
  The capacity-enforcement algorithm in the words of the specification: the \<open>n\<close> rearmost
  entries are evicted, the rearmost first; each is taken out of the ordering and the
  index, its size is subtracted, and its value is notified with reason \<^verbatim>\<open>CACHEFULL\<close> when
  it observes purges.
\<close>

definition evictedEntries :: "nat \<Rightarrow> LRUCacheInt \<Rightarrow> intEntry list" where
  "evictedEntries n lru =
     map (lru_elems lru) (rev (drop (length (lru_list lru) - n) (lru_list lru)))"

definition cacheFullCalls :: "intEntry list \<Rightarrow> purgeLog" where
  "cacheFullCalls gone =
     map (\<lambda>d. (entry_value d, PURGE_REASON_CACHEFULL))
         (filter (\<lambda>d. onPurger (entry_value d)) gone)"

definition evictTail :: "nat \<Rightarrow> LRUCacheInt \<Rightarrow> LRUCacheInt" where
  "evictTail n lru =
     (let gone = evictedEntries n lru
      in lru\<lparr>lru_list := take (length (lru_list lru) - n) (lru_list lru),
             lru_table := fold (\<lambda>d t. t(entry_key d := None)) gone (lru_table lru),
             lru_size := lru_size lru - sum_list (map entry_size gone),
             lru_purged := lru_purged lru @ cacheFullCalls gone\<rparr>)"

definition enforced :: "LRUCacheInt \<Rightarrow> LRUCacheInt \<Rightarrow> bool" where
  "enforced mid fin \<longleftrightarrow>
     (\<exists>n \<le> length (lru_list mid).
        fin = evictTail n mid \<and>
        lru_size fin \<le>s lru_capacity fin \<and>
        (\<forall>m < n. lru_capacity mid <s lru_size (evictTail m mid)))"

text \<open>
  Sizes read as signed integers: every held entry has a size that is not negative, and
  the running total is their sum without wrap-around.
\<close>

definition sized :: "LRUCacheInt \<Rightarrow> bool" where
  "sized lru \<longleftrightarrow>
     (\<forall>e \<in> set (lru_list lru). 0 \<le>s entry_size (lru_elems lru e)) \<and>
     sint (lru_size lru) = (\<Sum>e\<leftarrow>lru_list lru. sint (entry_size (lru_elems lru e)))"

text \<open>
  A value may be stored under a key when its size is not negative and the running total it
  leads to (the total, less the size of the entry it replaces, plus its own size) does not
  overflow \<^verbatim>\<open>int64\<close>.
\<close>

definition replacedSize :: "key \<Rightarrow> LRUCacheInt \<Rightarrow> int" where
  "replacedSize k lru =
     (case lru_table lru k of
        None \<Rightarrow> 0
      | Some e \<Rightarrow> sint (entry_size (lru_elems lru e)))"

definition admissible :: "key \<Rightarrow> Cacheable \<Rightarrow> LRUCacheInt \<Rightarrow> bool" where
  "admissible k v lru \<longleftrightarrow>
     0 \<le>s getSize v \<and>
     sint (lru_size lru) - replacedSize k lru + sint (getSize v) < 2 ^ 63"

text \<open>What a \<^verbatim>\<open>Get\<close> of \<open>k\<close> would store, if anything, may be stored.\<close>

definition loads_admissible :: "key \<Rightarrow> LRUCacheInt \<Rightarrow> bool" where
  "loads_admissible k lru \<longleftrightarrow>
     (case lru_table lru k of
        Some _ \<Rightarrow> True
      | None \<Rightarrow>
          (case lru_onMiss lru of
             None \<Rightarrow> True
           | Some onMiss \<Rightarrow> (case onMiss k of (v, ok) \<Rightarrow> ok \<longrightarrow> admissible k v lru)))"

text \<open>
  The states an engine is in between public operations, whatever it is given. An operation
  that panics leaves no state behind.
\<close>

inductive atRest :: "LRUCacheInt \<Rightarrow> bool" where
  rest_New: "atRest (NewLRUCacheInt capacity)"
| rest_Get: "atRest lru \<Longrightarrow> Get k lru = Inr (r, lru') \<Longrightarrow> atRest lru'"
| rest_Set: "atRest lru \<Longrightarrow> Set_lru k v lru = Inr lru' \<Longrightarrow> atRest lru'"
| rest_SetIfAbsent: "atRest lru \<Longrightarrow> SetIfAbsent k v lru = Inr lru' \<Longrightarrow> atRest lru'"
| rest_Delete: "atRest lru \<Longrightarrow> atRest (snd (Delete k lru))"
| rest_Clear: "atRest lru \<Longrightarrow> atRest (Clear lru)"
| rest_SetCapacity: "atRest lru \<Longrightarrow> SetCapacity capacity lru = Inr lru' \<Longrightarrow> atRest lru'"
| rest_OnMiss: "atRest lru \<Longrightarrow> atRest (OnMiss onMiss lru)"

text \<open>The index is consistent and the running total is the sum of the entries' sizes.\<close>

definition consistent :: "LRUCacheInt \<Rightarrow> bool" where
  "consistent lru \<longleftrightarrow> index_inv lru \<and> size_inv lru"

text \<open>
  The states an engine is in between public operations, when it is built with a capacity
  that is not negative, is only ever given such capacities, and stores only values that
  may be stored.
\<close>

inductive reachable :: "LRUCacheInt \<Rightarrow> bool" where
  reach_New: "0 \<le>s capacity \<Longrightarrow> reachable (NewLRUCacheInt capacity)"
| reach_Get: "reachable lru \<Longrightarrow> loads_admissible k lru \<Longrightarrow> Get k lru = Inr (r, lru') \<Longrightarrow>
              reachable lru'"
| reach_Set: "reachable lru \<Longrightarrow> admissible k v lru \<Longrightarrow> Set_lru k v lru = Inr lru' \<Longrightarrow>
              reachable lru'"
| reach_SetIfAbsent: "reachable lru \<Longrightarrow> lru_table lru k = None \<longrightarrow> admissible k v lru \<Longrightarrow>
              SetIfAbsent k v lru = Inr lru' \<Longrightarrow> reachable lru'"
| reach_Delete: "reachable lru \<Longrightarrow> reachable (snd (Delete k lru))"
| reach_Clear: "reachable lru \<Longrightarrow> reachable (Clear lru)"
| reach_SetCapacity: "reachable lru \<Longrightarrow> 0 \<le>s capacity \<Longrightarrow>
              SetCapacity capacity lru = Inr lru' \<Longrightarrow> reachable lru'"
| reach_OnMiss: "reachable lru \<Longrightarrow> reachable (OnMiss onMiss lru)"

definition good :: "LRUCacheInt \<Rightarrow> bool" where
  "good lru \<longleftrightarrow>
     index_inv lru \<and> sized lru \<and> 0 \<le>s lru_capacity lru \<and> lru_size lru \<le>s lru_capacity lru"

text \<open>
  The notification contract in the words of the specification: of a list of values, those
  that observe purges are each notified once with the reason, in order; the others are
  skipped.
\<close>

definition notified :: "PurgeReason \<Rightarrow> Cacheable list \<Rightarrow> purgeLog" where
  "notified why vs = map (\<lambda>v. (v, why)) (filter onPurger vs)"

text \<open>
  The division rule of the router in the words of the specification: every shard but the
  last gets the quotient of the integer division, the last one the quotient plus the
  remainder.
\<close>

definition expectedCapacities :: "int64 \<Rightarrow> int64 \<Rightarrow> int64 list" where
  "expectedCapacities count capacity =
     (let quotient = int64_div capacity count;
          remainder = capacity - quotient * count
      in replicate (nat (sint count) - 1) quotient @ [quotient + remainder])"

text \<open>
  A router as its constructor leaves it: the shard count is at least 1 and is the length
  of the shard list.
\<close>

definition shard_inv :: "ShardLRUCacheKeyUint64 \<Rightarrow> bool" where
  "shard_inv lru \<longleftrightarrow>
     1 \<le>s shardCount lru \<and> length (cachelist lru) = nat (sint (shardCount lru))"

definition shards_size_inv :: "ShardLRUCacheKeyUint64 \<Rightarrow> bool" where
  "shards_size_inv lru \<longleftrightarrow> (\<forall>shard \<in> set (cachelist lru). size_inv shard)"

section \<open>Example states\<close>

text \<open>
  An engine of capacity 2 holding key 11 (most recently used, a size-aware value of size 1)
  and key 10 (a value that observes purges and has the default size 1).
\<close>

definition twoEntries :: LRUCacheInt where
  "twoEntries =
     \<lparr>lru_list = [1, 0],
      lru_table = [10 \<mapsto> 0, 11 \<mapsto> 1],
      lru_size = 2, lru_capacity = 2, lru_onMiss = None,
      lru_elems = (\<lambda>_. zeroEntry)
        (0 := \<lparr>entry_key = 10, entry_value = Obj 100 None True, entry_size = 1\<rparr>,
         1 := \<lparr>entry_key = 11, entry_value = Obj 101 (Some 1) False, entry_size = 1\<rparr>),
      lru_alloc = 2, lru_purged = []\<rparr>"

text \<open>
  Capacity 0 after \<^verbatim>\<open>Set(1, a)\<close> and \<^verbatim>\<open>Set(2, b)\<close>, where \<open>a\<close> reports the size -5 and
  \<open>b\<close> the size 5: the total is 0 and nothing was evicted.
\<close>

definition negativeSizes :: LRUCacheInt where
  "negativeSizes =
     addNew_pushed 2 (Obj 2 (Some 5) False)
       (addNew_pushed 1 (Obj 1 (Some (- 5)) False) (NewLRUCacheInt 0))"

text \<open>
  Capacity \<open>2 ^ 62\<close> after \<^verbatim>\<open>Set(1, a)\<close> and \<^verbatim>\<open>Set(2, b)\<close>, where \<open>a\<close> reports the size
  \<open>2 ^ 62\<close> and \<open>b\<close> the size \<open>2 ^ 63 - 1\<close>: the total has wrapped around to a negative
  number and nothing was evicted.
\<close>

definition wrappedTotal :: LRUCacheInt where
  "wrappedTotal =
     addNew_pushed 2 (Obj 2 (Some 9223372036854775807) False)
       (addNew_pushed 1 (Obj 1 (Some 4611686018427387904) False)
          (NewLRUCacheInt 4611686018427387904))"

text \<open>A miss-loader that finds key 12 only.\<close>

definition onlyKey12 :: OnMissHandlerInt where
  "onlyKey12 k = (Obj 300 None False, k = 12)"

text \<open>A miss-loader that finds key 12 only, with a value of size 5 that observes purges.\<close>

definition bigFor12 :: OnMissHandlerInt where
  "bigFor12 k = (Obj 400 (Some 5) True, k = 12)"

text \<open>
  An engine of capacity 0 after \<^verbatim>\<open>Set(1, a)\<close>, where \<open>a\<close> reports the size 0 and observes
  purges.
\<close>

definition zeroCapacity :: LRUCacheInt where
  "zeroCapacity = addNew_pushed 1 (Obj 1 (Some 0) True) (NewLRUCacheInt 0)"

text \<open>Running one operation after another; a panic ends the run.\<close>

definition andThen :: "Panic + 'a \<Rightarrow> ('a \<Rightarrow> Panic + 'b) \<Rightarrow> Panic + 'b" where
  "andThen r f = (case r of Inl p \<Rightarrow> Inl p | Inr x \<Rightarrow> f x)"

text \<open>The values of the tests: \<^verbatim>\<open>&CacheValue{1}\<close> and \<^verbatim>\<open>&PurgeCacheValue{}\<close>.\<close>

definition sizeOne :: "nat \<Rightarrow> Cacheable" where
  "sizeOne i = Obj i (Some 1) False"

definition purgeValue :: Cacheable where
  "purgeValue = Obj 0 None True"

section \<open>Evaluation on concrete states\<close>

lemma replicate_2: "replicate 2 x = [x, x]"
  by (simp add: numeral_2_eq_2)

lemmas eval_defs = addNew_def addNew_pushed_def updateInplace_def updateInplace_written_def
  SetCapacity_def moveToFront_def list_MoveToFront_def list_PushFront_def list_Back_def
  list_Remove_def evictElem_def safeOnPurge_def onPurger_def getSize_def sizeAware_def
  word_sless_alt word_sle_eq Let_def

lemmas spec_defs = evictTail_def evictedEntries_def cacheFullCalls_def

lemmas op_eval_defs = Set_lru_def set_lru_def SetIfAbsent_def Get_def Delete_def Clear_def
  OnMiss_def NewLRUCacheInt_def zeroEntry_def Keys_def Values_def

lemmas shard_eval_defs = NewShardLRUCacheKeyUint64_def ShardSetCapacity_def ShardStats_def
  ShardCapacity_def ShardSize_def shardCapacityAt_def int64_div_def signed_divide_int_def
  NewLRUCacheInt_def SetCapacity_def Stats_def Size_def expectedCapacities_def
  word_sless_alt word_sle_eq Let_def upt_rec replicate_2

section \<open>The capacity loop evicts from the tail\<close>

lemma evictTail_0: "evictTail 0 lru = lru"
  by (simp add: evictTail_def evictedEntries_def cacheFullCalls_def)

lemma evictTail_Suc:
  assumes "distinct (lru_list lru)" "n < length (lru_list lru)"
  shows "evictTail (Suc n) lru = evictTail n (evictElem (last (lru_list lru)) lru)"
proof -
  from assms obtain l x where l: "lru_list lru = l @ [x]"
    by (cases "lru_list lru" rule: rev_cases) auto
  with assms have nx: "x \<notin> set l" and n: "n \<le> length l" by auto
  from nx have r: "remove1 x (l @ [x]) = l" by (simp add: remove1_append)
  show ?thesis using l n r
    by (simp add: evictTail_def evictedEntries_def evictElem_def list_Remove_def Let_def
        cacheFullCalls_def safeOnPurge_def Suc_diff_le algebra_simps)
qed

lemma list_Back_Some: "list_Back l = Some e \<longleftrightarrow> l \<noteq> [] \<and> e = last l"
  by (auto simp: list_Back_def split: list.splits)

lemma list_Back_None: "list_Back l = None \<longleftrightarrow> l = []"
  by (auto simp: list_Back_def split: list.splits)

lemma evictElem_list_last:
  "distinct (lru_list lru) \<Longrightarrow> lru_list lru \<noteq> [] \<Longrightarrow>
   lru_list (evictElem (last (lru_list lru)) lru) = butlast (lru_list lru)"
  by (cases "lru_list lru" rule: rev_cases)
     (auto simp: evictElem_def list_Remove_def Let_def remove1_append)

lemma evictElem_fields [simp]:
  "lru_capacity (evictElem e lru) = lru_capacity lru"
  "lru_elems (evictElem e lru) = lru_elems lru"
  "lru_alloc (evictElem e lru) = lru_alloc lru"
  "lru_onMiss (evictElem e lru) = lru_onMiss lru"
  by (simp_all add: evictElem_def Let_def)

lemma checkCapacity_enforced:
  "distinct (lru_list lru) \<Longrightarrow> checkCapacity lru = Inr fin \<Longrightarrow> enforced lru fin"
proof (induction lru rule: checkCapacity.induct)
  case (1 lru)
  show ?case
  proof (cases "lru_capacity lru <s lru_size lru")
    case False
    with "1.prems" have "fin = lru" by (simp add: checkCapacity.simps)
    with False show ?thesis
      unfolding enforced_def
      by (intro exI[of _ 0]) (simp add: evictTail_0 signed.not_less)
  next
    case over: True
    with "1.prems" obtain e where e: "list_Back (lru_list lru) = Some e"
      and rec: "checkCapacity (evictElem e lru) = Inr fin"
      by (auto simp: checkCapacity.simps[of lru] split: option.splits)
    from e have ne: "lru_list lru \<noteq> []" and el: "e = last (lru_list lru)"
      by (simp_all add: list_Back_Some)
    have l1: "lru_list (evictElem e lru) = butlast (lru_list lru)"
      using "1.prems"(1) ne el by (simp add: evictElem_list_last)
    then have d1: "distinct (lru_list (evictElem e lru))"
      using "1.prems"(1) by (simp add: distinct_butlast)
    from "1.IH"[OF over e d1 rec] obtain n where
      n: "n \<le> length (butlast (lru_list lru))"
      and fin: "fin = evictTail n (evictElem e lru)"
      and le: "lru_size fin \<le>s lru_capacity fin"
      and mins: "\<forall>m<n. lru_capacity lru <s lru_size (evictTail m (evictElem e lru))"
      unfolding enforced_def l1 by auto
    from n ne have n': "n < length (lru_list lru)"
      by (cases "lru_list lru" rule: rev_cases) auto
    have step: "\<And>m. m \<le> n \<Longrightarrow> evictTail m (evictElem e lru) = evictTail (Suc m) lru"
      using evictTail_Suc[OF "1.prems"(1)] n' el by simp
    have "\<forall>m<Suc n. lru_capacity lru <s lru_size (evictTail m lru)"
    proof (intro allI impI)
      fix m assume m: "m < Suc n"
      show "lru_capacity lru <s lru_size (evictTail m lru)"
      proof (cases m)
        case 0 with over show ?thesis by (simp add: evictTail_0)
      next
        case (Suc m')
        with m have m': "m' < n" by simp
        with mins have "lru_capacity lru <s lru_size (evictTail m' (evictElem e lru))"
          by blast
        moreover from m' have "evictTail m' (evictElem e lru) = evictTail (Suc m') lru"
          by (intro step) simp
        ultimately show ?thesis using Suc by simp
      qed
    qed
    with fin le step[of n] n' show ?thesis
      unfolding enforced_def by (intro exI[of _ "Suc n"]) simp
  qed
qed

section \<open>The invariants are kept\<close>

lemma NewLRUCacheInt_index_inv: "index_inv (NewLRUCacheInt c)"
  by (simp add: index_inv_def NewLRUCacheInt_def)

lemma NewLRUCacheInt_size_inv: "size_inv (NewLRUCacheInt c)"
  by (simp add: size_inv_def entrySizes_def NewLRUCacheInt_def)

lemma index_inv_tableD:
  "index_inv lru \<Longrightarrow> lru_table lru k = Some e \<Longrightarrow>
   e \<in> set (lru_list lru) \<and> entry_key (lru_elems lru e) = k"
  unfolding index_inv_def by blast

lemma index_inv_listD:
  "index_inv lru \<Longrightarrow> e \<in> set (lru_list lru) \<Longrightarrow>
   e < lru_alloc lru \<and> lru_table lru (entry_key (lru_elems lru e)) = Some e"
  unfolding index_inv_def by blast

lemma index_inv_distinct: "index_inv lru \<Longrightarrow> distinct (lru_list lru)"
  unfolding index_inv_def by blast

lemma index_inv_alloc_fresh: "index_inv lru \<Longrightarrow> lru_alloc lru \<notin> set (lru_list lru)"
  using index_inv_listD by blast

lemma index_invI:
  assumes "distinct (lru_list lru)"
    and "\<And>e. e \<in> set (lru_list lru) \<Longrightarrow> e < lru_alloc lru"
    and "\<And>e. e \<in> set (lru_list lru) \<Longrightarrow>
           lru_table lru (entry_key (lru_elems lru e)) = Some e"
    and "\<And>k e. lru_table lru k = Some e \<Longrightarrow> e \<in> set (lru_list lru)"
    and "\<And>k e. lru_table lru k = Some e \<Longrightarrow> entry_key (lru_elems lru e) = k"
  shows "index_inv lru"
  unfolding index_inv_def using assms by blast

lemma index_inv_remove:
  assumes inv: "index_inv lru" and e: "e \<in> set (lru_list lru)"
  shows "index_inv (lru\<lparr>lru_list := remove1 e (lru_list lru),
                        lru_table := (lru_table lru)(entry_key (lru_elems lru e) := None),
                        lru_size := sz, lru_purged := pl\<rparr>)"
    (is "index_inv ?lru'")
proof (rule index_invI)
  note d = index_inv_distinct[OF inv]
  show "distinct (lru_list ?lru')" using d by simp
  show "x < lru_alloc ?lru'" if "x \<in> set (lru_list ?lru')" for x
    using that d index_inv_listD[OF inv, of x] by simp
  show "lru_table ?lru' (entry_key (lru_elems ?lru' x)) = Some x"
    if "x \<in> set (lru_list ?lru')" for x
  proof -
    from that d have x: "x \<in> set (lru_list lru)" "x \<noteq> e" by auto
    from index_inv_listD[OF inv x(1)] index_inv_listD[OF inv e] x(2)
    have "entry_key (lru_elems lru x) \<noteq> entry_key (lru_elems lru e)" by auto
    with index_inv_listD[OF inv x(1)] show ?thesis by simp
  qed
  show "x \<in> set (lru_list ?lru')" if "lru_table ?lru' k = Some x" for k x
  proof -
    from that have k: "k \<noteq> entry_key (lru_elems lru e)" "lru_table lru k = Some x"
      by (auto split: if_splits)
    from index_inv_tableD[OF inv k(2)] k(1) have "x \<in> set (lru_list lru)" "x \<noteq> e"
      by auto
    then show ?thesis by simp
  qed
  show "entry_key (lru_elems ?lru' x) = k" if "lru_table ?lru' k = Some x" for k x
  proof -
    from that have "lru_table lru k = Some x" by (auto split: if_splits)
    from index_inv_tableD[OF inv this] show ?thesis by simp
  qed
qed

lemma evictElem_index_inv:
  "index_inv lru \<Longrightarrow> e \<in> set (lru_list lru) \<Longrightarrow> index_inv (evictElem e lru)"
  unfolding evictElem_def Let_def list_Remove_def by (rule index_inv_remove)

lemma sum_list_map_remove1_word:
  fixes f :: "'a \<Rightarrow> 'b::ab_group_add"
  shows "e \<in> set l \<Longrightarrow> sum_list (map f (remove1 e l)) = sum_list (map f l) - f e"
  by (induction l) (auto simp: algebra_simps)

lemma evictElem_size_inv:
  "size_inv lru \<Longrightarrow> e \<in> set (lru_list lru) \<Longrightarrow> size_inv (evictElem e lru)"
  by (simp add: size_inv_def entrySizes_def evictElem_def Let_def list_Remove_def
      sum_list_map_remove1_word)

lemma checkCapacity_index_inv:
  "index_inv lru \<Longrightarrow> checkCapacity lru = Inr fin \<Longrightarrow> index_inv fin"
proof (induction lru rule: checkCapacity.induct)
  case (1 lru)
  show ?case
  proof (cases "lru_capacity lru <s lru_size lru")
    case False
    with "1.prems" show ?thesis by (simp add: checkCapacity.simps)
  next
    case over: True
    with "1.prems" obtain e where e: "list_Back (lru_list lru) = Some e"
      and rec: "checkCapacity (evictElem e lru) = Inr fin"
      by (auto simp: checkCapacity.simps[of lru] split: option.splits)
    from e have "e \<in> set (lru_list lru)" by (simp add: list_Back_Some)
    with "1.prems" have "index_inv (evictElem e lru)" by (simp add: evictElem_index_inv)
    from "1.IH"[OF over e this rec] show ?thesis .
  qed
qed

lemma checkCapacity_size_inv:
  "size_inv lru \<Longrightarrow> checkCapacity lru = Inr fin \<Longrightarrow> size_inv fin"
proof (induction lru rule: checkCapacity.induct)
  case (1 lru)
  show ?case
  proof (cases "lru_capacity lru <s lru_size lru")
    case False
    with "1.prems" show ?thesis by (simp add: checkCapacity.simps)
  next
    case over: True
    with "1.prems" obtain e where e: "list_Back (lru_list lru) = Some e"
      and rec: "checkCapacity (evictElem e lru) = Inr fin"
      by (auto simp: checkCapacity.simps[of lru] split: option.splits)
    from e have "e \<in> set (lru_list lru)" by (simp add: list_Back_Some)
    with "1.prems" have "size_inv (evictElem e lru)" by (simp add: evictElem_size_inv)
    from "1.IH"[OF over e this rec] show ?thesis .
  qed
qed

lemma checkCapacity_within:
  "checkCapacity lru = Inr fin \<Longrightarrow> lru_size fin \<le>s lru_capacity fin"
proof (induction lru rule: checkCapacity.induct)
  case (1 lru)
  show ?case
  proof (cases "lru_capacity lru <s lru_size lru")
    case False
    with "1.prems" show ?thesis by (simp add: checkCapacity.simps signed.not_less)
  next
    case over: True
    with "1.prems" obtain e where e: "list_Back (lru_list lru) = Some e"
      and rec: "checkCapacity (evictElem e lru) = Inr fin"
      by (auto simp: checkCapacity.simps[of lru] split: option.splits)
    from "1.IH"[OF over e rec] show ?thesis .
  qed
qed

lemma checkCapacity_fields:
  "checkCapacity lru = Inr fin \<Longrightarrow>
   lru_capacity fin = lru_capacity lru \<and> lru_elems fin = lru_elems lru \<and>
   lru_alloc fin = lru_alloc lru \<and> lru_onMiss fin = lru_onMiss lru"
proof (induction lru rule: checkCapacity.induct)
  case (1 lru)
  show ?case
  proof (cases "lru_capacity lru <s lru_size lru")
    case False
    with "1.prems" show ?thesis by (simp add: checkCapacity.simps)
  next
    case over: True
    with "1.prems" obtain e where e: "list_Back (lru_list lru) = Some e"
      and rec: "checkCapacity (evictElem e lru) = Inr fin"
      by (auto simp: checkCapacity.simps[of lru] split: option.splits)
    from "1.IH"[OF over e rec] show ?thesis by simp
  qed
qed

text \<open>The loop returns whenever the running total is the sum of the entries' sizes and
  the capacity is not negative: on the empty list the total is 0.\<close>

lemma checkCapacity_returns:
  "size_inv lru \<Longrightarrow> 0 \<le>s lru_capacity lru \<Longrightarrow> \<exists>fin. checkCapacity lru = Inr fin"
proof (induction lru rule: checkCapacity.induct)
  case (1 lru)
  show ?case
  proof (cases "lru_capacity lru <s lru_size lru")
    case False
    then show ?thesis by (simp add: checkCapacity.simps)
  next
    case over: True
    have "lru_list lru \<noteq> []"
    proof
      assume "lru_list lru = []"
      with "1.prems"(1) have "lru_size lru = 0" by (simp add: size_inv_def entrySizes_def)
      with over "1.prems"(2) show False by (simp add: signed.not_less[symmetric])
    qed
    then obtain e where e: "list_Back (lru_list lru) = Some e"
      by (cases "lru_list lru") (auto simp: list_Back_def)
    then have "e \<in> set (lru_list lru)" by (simp add: list_Back_Some)
    with "1.prems" have "size_inv (evictElem e lru)" by (simp add: evictElem_size_inv)
    from "1.IH"[OF over e this] "1.prems"(2) over e show ?thesis
      by (simp add: checkCapacity.simps[of lru])
  qed
qed

lemma moveToFront_index_inv: "index_inv lru \<Longrightarrow> index_inv (moveToFront e lru)"
  unfolding index_inv_def moveToFront_def list_MoveToFront_def by auto

lemma moveToFront_size_inv: "size_inv lru \<Longrightarrow> size_inv (moveToFront e lru)"
  by (simp add: size_inv_def entrySizes_def moveToFront_def list_MoveToFront_def
      sum_list_map_remove1_word)

lemma addNew_pushed_index_inv:
  assumes inv: "index_inv lru" and k: "lru_table lru k = None"
  shows "index_inv (addNew_pushed k v lru)" (is "index_inv ?lru'")
proof (rule index_invI)
  have l: "lru_list ?lru' = lru_alloc lru # lru_list lru"
    and t: "lru_table ?lru' = (lru_table lru)(k \<mapsto> lru_alloc lru)"
    and a: "lru_alloc ?lru' = Suc (lru_alloc lru)"
    and el: "lru_elems ?lru' = (lru_elems lru)
               (lru_alloc lru := \<lparr>entry_key = k, entry_value = v, entry_size = getSize v\<rparr>)"
    by (simp_all add: addNew_pushed_def Let_def list_PushFront_def)
  note fresh = index_inv_alloc_fresh[OF inv]
  show "distinct (lru_list ?lru')"
    using index_inv_distinct[OF inv] fresh by (simp add: l)
  show "x < lru_alloc ?lru'" if "x \<in> set (lru_list ?lru')" for x
    using that index_inv_listD[OF inv, of x] by (auto simp: l a)
  show "lru_table ?lru' (entry_key (lru_elems ?lru' x)) = Some x"
    if "x \<in> set (lru_list ?lru')" for x
  proof (cases "x = lru_alloc lru")
    case True
    then show ?thesis by (simp add: t el)
  next
    case False
    with that have x: "x \<in> set (lru_list lru)" by (simp add: l)
    from index_inv_listD[OF inv x] k have "entry_key (lru_elems lru x) \<noteq> k" by auto
    with index_inv_listD[OF inv x] False show ?thesis by (simp add: t el)
  qed
  show "x \<in> set (lru_list ?lru')" if "lru_table ?lru' k' = Some x" for k' x
    using that index_inv_tableD[OF inv, of k' x] by (auto simp: t l split: if_splits)
  show "entry_key (lru_elems ?lru' x) = k'" if "lru_table ?lru' k' = Some x" for k' x
  proof (cases "k' = k")
    case True
    with that show ?thesis by (simp add: t el)
  next
    case False
    with that have "lru_table lru k' = Some x" by (simp add: t)
    from index_inv_tableD[OF inv this] fresh show ?thesis by (auto simp: el)
  qed
qed

lemma sum_list_upd_fresh:
  fixes f :: "'b \<Rightarrow> 'c::monoid_add"
  shows "a \<notin> set l \<Longrightarrow> (\<Sum>e\<leftarrow>l. f ((g(a := x)) e)) = (\<Sum>e\<leftarrow>l. f (g e))"
  by (induction l) auto

lemma addNew_pushed_size_inv:
  "index_inv lru \<Longrightarrow> size_inv lru \<Longrightarrow> size_inv (addNew_pushed k v lru)"
proof -
  assume a: "index_inv lru" "size_inv lru"
  then have "lru_alloc lru \<notin> set (lru_list lru)" by (auto simp: index_inv_def)
  with a show ?thesis
    by (simp add: size_inv_def entrySizes_def addNew_pushed_def Let_def list_PushFront_def
        sum_list_upd_fresh fun_upd_same del: fun_upd_apply)
qed

lemma sum_list_upd_member:
  fixes f :: "'b \<Rightarrow> 'c::ab_group_add"
  shows "distinct l \<Longrightarrow> a \<in> set l \<Longrightarrow>
    (\<Sum>e\<leftarrow>l. f ((g(a := x)) e)) = (\<Sum>e\<leftarrow>l. f (g e)) + (f x - f (g a))"
proof (induction l)
  case Nil
  then show ?case by simp
next
  case (Cons b l)
  show ?case
  proof (cases "b = a")
    case True
    with Cons.prems have "a \<notin> set l" by simp
    then have "(\<Sum>e\<leftarrow>l. f ((g(a := x)) e)) = (\<Sum>e\<leftarrow>l. f (g e))"
      by (rule sum_list_upd_fresh)
    with True show ?thesis by (simp add: algebra_simps)
  next
    case False
    with Cons.prems have "distinct l" "a \<in> set l" by auto
    then have "(\<Sum>e\<leftarrow>l. f ((g(a := x)) e)) = (\<Sum>e\<leftarrow>l. f (g e)) + (f x - f (g a))"
      by (rule Cons.IH)
    with False show ?thesis by (simp add: algebra_simps)
  qed
qed

lemma index_inv_rewrite_value:
  assumes inv: "index_inv lru"
  shows "index_inv (lru\<lparr>lru_purged := pl,
                        lru_elems := (lru_elems lru)
                           (e := (lru_elems lru e)\<lparr>entry_value := v, entry_size := sz\<rparr>),
                        lru_size := sz2\<rparr>)"
    (is "index_inv ?lru'")
proof (rule index_invI)
  have k: "entry_key (lru_elems ?lru' x) = entry_key (lru_elems lru x)" for x
    by simp
  show "distinct (lru_list ?lru')" using index_inv_distinct[OF inv] by simp
  show "x < lru_alloc ?lru'" if "x \<in> set (lru_list ?lru')" for x
    using that index_inv_listD[OF inv, of x] by simp
  show "lru_table ?lru' (entry_key (lru_elems ?lru' x)) = Some x"
    if "x \<in> set (lru_list ?lru')" for x
    using that index_inv_listD[OF inv, of x] unfolding k by simp
  show "x \<in> set (lru_list ?lru')" if "lru_table ?lru' k' = Some x" for k' x
    using that index_inv_tableD[OF inv, of k' x] by simp
  show "entry_key (lru_elems ?lru' x) = k'" if "lru_table ?lru' k' = Some x" for k' x
    using that index_inv_tableD[OF inv, of k' x] unfolding k by simp
qed

lemma updateInplace_written_index_inv:
  "index_inv lru \<Longrightarrow> index_inv (updateInplace_written e v lru)"
  unfolding updateInplace_written_def Let_def
  by (intro moveToFront_index_inv index_inv_rewrite_value)

lemma updateInplace_written_size_inv:
  assumes "index_inv lru" "size_inv lru" "e \<in> set (lru_list lru)"
  shows "size_inv (updateInplace_written e v lru)"
proof -
  note d = index_inv_distinct[OF assms(1)]
  from assms(2) d assms(3) show ?thesis
    unfolding updateInplace_written_def Let_def
    by (intro moveToFront_size_inv)
       (simp add: size_inv_def entrySizes_def sum_list_upd_member fun_upd_same
          del: fun_upd_apply)
qed

lemma Delete_index_inv: "index_inv lru \<Longrightarrow> index_inv (snd (Delete k lru))"
proof (cases "lru_table lru k")
  case None
  then show "index_inv lru \<Longrightarrow> ?thesis" by (simp add: Delete_def)
next
  case (Some e)
  assume a: "index_inv lru"
  from index_inv_tableD[OF a Some]
  have e: "e \<in> set (lru_list lru)" "entry_key (lru_elems lru e) = k" by auto
  from index_inv_remove[OF a e(1)] e(2) Some show ?thesis
    by (simp add: Delete_def list_Remove_def)
qed

lemma Delete_size_inv:
  assumes "index_inv lru" "size_inv lru"
  shows "size_inv (snd (Delete k lru))"
proof (cases "lru_table lru k")
  case None
  with assms show ?thesis by (simp add: Delete_def)
next
  case (Some e)
  from index_inv_tableD[OF assms(1) Some] have "e \<in> set (lru_list lru)" by simp
  with assms(2) Some show ?thesis
    by (simp add: Delete_def size_inv_def entrySizes_def list_Remove_def
        sum_list_map_remove1_word)
qed

lemma Clear_index_inv: "index_inv (Clear lru)"
  by (simp add: Clear_def index_inv_def)

lemma Clear_size_inv: "size_inv (Clear lru)"
  by (simp add: Clear_def size_inv_def entrySizes_def)

lemma twoEntries_index_inv: "index_inv twoEntries"
  by (rule index_invI) (auto simp: twoEntries_def split: if_splits)

lemma addNew_pushed_distinct:
  "index_inv lru \<Longrightarrow> distinct (lru_list (addNew_pushed k v lru))"
  using index_inv_distinct[of lru] index_inv_alloc_fresh[of lru]
  by (simp add: addNew_pushed_def Let_def list_PushFront_def)

lemma updateInplace_written_distinct:
  "index_inv lru \<Longrightarrow> distinct (lru_list (updateInplace_written e v lru))"
  using index_inv_distinct[of lru]
  by (simp add: updateInplace_written_def Let_def moveToFront_def list_MoveToFront_def)

section \<open>Signed 64-bit arithmetic and the router's division rule\<close>

lemma sint_word_of_int_64:
  "- (2 ^ 63) \<le> x \<Longrightarrow> x < 2 ^ 63 \<Longrightarrow> sint (word_of_int x :: int64) = x"
  by (simp add: signed_of_int signed_take_bit_int_eq_self)

lemma sint_add_64:
  fixes a b :: int64
  shows "- (2 ^ 63) \<le> sint a + sint b \<Longrightarrow> sint a + sint b < 2 ^ 63 \<Longrightarrow>
         sint (a + b) = sint a + sint b"
  by (simp add: sint_word_ariths signed_take_bit_int_eq_self)

lemma sint_sub_64:
  fixes a b :: int64
  shows "- (2 ^ 63) \<le> sint a - sint b \<Longrightarrow> sint a - sint b < 2 ^ 63 \<Longrightarrow>
         sint (a - b) = sint a - sint b"
  by (simp add: sint_word_ariths signed_take_bit_int_eq_self)

lemma sint_range_64: fixes a :: int64 shows "- (2 ^ 63) \<le> sint a \<and> sint a < 2 ^ 63"
  using sint_greater_eq[of a] sint_less[of a] by simp

text \<open>A shard count that is at least 1 is the number of shards it stands for.\<close>

lemma count_of_nat:
  fixes count :: int64
  assumes "1 \<le>s count"
  shows "word_of_nat (nat (sint count)) = count"
proof -
  from assms have "0 \<le> sint count" by (simp add: word_sle_eq)
  then have "word_of_nat (nat (sint count)) = (word_of_int (sint count) :: int64)"
    by (metis of_int_of_nat_eq int_nat_eq)
  then show ?thesis by simp
qed

lemma last_index_iff:
  fixes count :: int64
  assumes c: "1 \<le>s count" and i: "i < nat (sint count)"
  shows "(word_of_nat i = count - 1) \<longleftrightarrow> i = nat (sint count) - 1"
proof -
  let ?n = "nat (sint count)"
  from c have n1: "1 \<le> ?n" by (simp add: word_sle_eq)
  have nb: "?n < 2 ^ 63" using sint_range_64[of count] by auto
  have "count - 1 = word_of_nat ?n - 1" using count_of_nat[OF c] by simp
  also have "\<dots> = word_of_nat (?n - 1)" using n1 by (simp add: of_nat_diff)
  finally have eq: "count - 1 = (word_of_nat (?n - 1) :: int64)" .
  have "(word_of_nat i = (word_of_nat (?n - 1) :: int64)) \<longleftrightarrow> i = ?n - 1"
  proof -
    have "i < 2 ^ 64" "?n - 1 < 2 ^ 64" using i nb by auto
    then show ?thesis by (simp add: word_of_nat_eq_iff take_bit_nat_eq_self)
  qed
  with eq show ?thesis by simp
qed


lemma shardCapacityAt_upt:
  fixes count :: int64
  assumes c: "1 \<le>s count"
  shows "map (shardCapacityAt count q l) [0 ..< nat (sint count)]
         = replicate (nat (sint count) - 1) q @ [q + l]"
proof -
  let ?n = "nat (sint count)"
  from c have n1: "1 \<le> ?n" by (simp add: word_sle_eq)
  then have u: "[0 ..< ?n] = [0 ..< ?n - 1] @ [?n - 1]"
  proof -
    from n1 have "?n = Suc (?n - 1)" by simp
    then have "[0 ..< ?n] = [0 ..< Suc (?n - 1)]" by simp
    then show ?thesis by (simp only: upt_Suc_append[OF le0])
  qed
  have a: "map (shardCapacityAt count q l) [0 ..< ?n - 1] = map (\<lambda>_. q) [0 ..< ?n - 1]"
  proof (rule map_cong[OF refl])
    fix i assume "i \<in> set [0 ..< ?n - 1]"
    then have "i < ?n" "i \<noteq> ?n - 1" by auto
    with last_index_iff[OF c, of i] show "shardCapacityAt count q l i = q"
      by (simp add: shardCapacityAt_def)
  qed
  have b: "shardCapacityAt count q l (?n - 1) = q + l"
    using last_index_iff[OF c, of "?n - 1"] n1 by (simp add: shardCapacityAt_def)
  have "map (shardCapacityAt count q l) [0 ..< ?n]
        = map (shardCapacityAt count q l) ([0 ..< ?n - 1] @ [?n - 1])"
    using u by (rule arg_cong)
  also have "\<dots> = replicate (?n - 1) q @ [q + l]"
    using a b by (simp add: map_replicate_const)
  finally show ?thesis .
qed

lemma sum_expectedCapacities:
  fixes count :: int64
  assumes c: "1 \<le>s count"
  shows "sum_list (expectedCapacities count capacity) = capacity"
proof -
  let ?n = "nat (sint count)"
  from c have n1: "1 \<le> ?n" by (simp add: word_sle_eq)
  have w: "(word_of_nat (?n - 1) :: int64) = count - 1"
    using n1 count_of_nat[OF c] by (simp add: of_nat_diff)
  have "sum_list (expectedCapacities count capacity)
        = word_of_nat (?n - 1) * int64_div capacity count
          + (int64_div capacity count + (capacity - int64_div capacity count * count))"
    by (simp add: expectedCapacities_def Let_def sum_list_replicate)
  also have "\<dots> = capacity"
    unfolding w by (simp add: algebra_simps)
  finally show ?thesis .
qed

lemma SetCapacity_capacity: "SetCapacity c lru = Inr fin \<Longrightarrow> lru_capacity fin = c"
  unfolding SetCapacity_def by (drule checkCapacity_fields) simp

lemma size_inv_capacity_update:
  "size_inv lru \<Longrightarrow> size_inv (lru\<lparr>lru_capacity := c\<rparr>)"
  by (simp add: size_inv_def entrySizes_def)

lemma SetCapacity_size_inv:
  "size_inv lru \<Longrightarrow> SetCapacity c lru = Inr fin \<Longrightarrow> size_inv fin"
  unfolding SetCapacity_def
  using checkCapacity_size_inv[OF size_inv_capacity_update] by blast

lemma SetCapacity_returns:
  "size_inv lru \<Longrightarrow> 0 \<le>s c \<Longrightarrow> \<exists>fin. SetCapacity c lru = Inr fin"
  unfolding SetCapacity_def
  using checkCapacity_returns[OF size_inv_capacity_update, of lru c] by simp

lemma setShardCapacities_result:
  "setShardCapacities count q l is cl = Inr cl' \<Longrightarrow> distinct is \<Longrightarrow>
   length cl' = length cl \<and>
   (\<forall>i \<in> set is. lru_capacity (cl' ! i) = shardCapacityAt count q l i) \<and>
   (\<forall>j. j \<notin> set is \<longrightarrow> cl' ! j = cl ! j)"
proof (induction "is" arbitrary: cl)
  case Nil
  then show ?case by simp
next
  case (Cons i "is")
  from Cons.prems(1) obtain c where i: "i < length cl"
    and c: "SetCapacity (shardCapacityAt count q l i) (cl ! i) = Inr c"
    and rest: "setShardCapacities count q l is (cl[i := c]) = Inr cl'"
    by (auto split: if_splits sum.splits)
  from Cons.prems(2) have d: "distinct is" and ni: "i \<notin> set is" by auto
  from Cons.IH[OF rest d] have len: "length cl' = length cl"
    and caps: "\<forall>j \<in> set is. lru_capacity (cl' ! j) = shardCapacityAt count q l j"
    and keep: "\<forall>j. j \<notin> set is \<longrightarrow> cl' ! j = cl[i := c] ! j"
    by auto
  from keep ni i have "cl' ! i = c" by simp
  with SetCapacity_capacity[OF c] have "lru_capacity (cl' ! i) = shardCapacityAt count q l i"
    by simp
  moreover have "cl' ! j = cl ! j" if "j \<notin> set (i # is)" for j
    using that keep by simp
  ultimately show ?case using len caps by auto
qed

lemma setShardCapacities_returns:
  "\<forall>c \<in> set cl. size_inv c \<Longrightarrow> \<forall>i \<in> set is. i < length cl \<Longrightarrow>
   \<forall>i \<in> set is. 0 \<le>s shardCapacityAt count q l i \<Longrightarrow>
   \<exists>cl'. setShardCapacities count q l is cl = Inr cl'"
proof (induction "is" arbitrary: cl)
  case Nil
  then show ?case by simp
next
  case (Cons i "is")
  from Cons.prems have i: "i < length cl" and si: "size_inv (cl ! i)"
    and nn: "0 \<le>s shardCapacityAt count q l i" by auto
  from SetCapacity_returns[OF si nn] obtain c where
    c: "SetCapacity (shardCapacityAt count q l i) (cl ! i) = Inr c" by blast
  have "size_inv x" if "x \<in> set (cl[i := c])" for x
  proof -
    from that set_update_subset_insert[of cl i c] have "x = c \<or> x \<in> set cl" by auto
    with SetCapacity_size_inv[OF si c] Cons.prems(1) show ?thesis by auto
  qed
  then have "\<forall>x \<in> set (cl[i := c]). size_inv x" by blast
  from Cons.IH[OF this] Cons.prems(2,3) obtain cl' where
    "setShardCapacities count q l is (cl[i := c]) = Inr cl'" by auto
  with i c show ?case by simp
qed

lemma NewShard_inv: "shard_inv (NewShardLRUCacheKeyUint64 sc capacity)"
  by (simp add: shard_inv_def NewShardLRUCacheKeyUint64_def Let_def word_sle_eq word_sless_alt)

lemma NewShard_capacities:
  "map lru_capacity (cachelist (NewShardLRUCacheKeyUint64 sc capacity))
   = expectedCapacities (shardCount (NewShardLRUCacheKeyUint64 sc capacity)) capacity"
proof -
  let ?count = "if sc <s 1 then 1 else sc"
  have c: "1 \<le>s ?count" by (simp add: word_sle_eq word_sless_alt)
  have "map lru_capacity (cachelist (NewShardLRUCacheKeyUint64 sc capacity))
        = map (shardCapacityAt ?count (int64_div capacity ?count)
                 (capacity - int64_div capacity ?count * ?count)) [0 ..< nat (sint ?count)]"
    by (simp add: NewShardLRUCacheKeyUint64_def Let_def NewLRUCacheInt_def comp_def)
  also note shardCapacityAt_upt[OF c]
  finally show ?thesis
    by (simp add: expectedCapacities_def NewShardLRUCacheKeyUint64_def Let_def)
qed

lemma ShardSetCapacity_capacities:
  assumes inv: "shard_inv lru" and res: "ShardSetCapacity capacity lru = Inr lru'"
  shows "map lru_capacity (cachelist lru') = expectedCapacities (shardCount lru) capacity"
    and "shardCount lru' = shardCount lru"
proof -
  let ?count = "shardCount lru"
  let ?q = "int64_div capacity ?count"
  let ?l = "capacity - ?q * ?count"
  let ?n = "nat (sint ?count)"
  from inv have c: "1 \<le>s ?count" and len: "length (cachelist lru) = ?n"
    by (simp_all add: shard_inv_def)
  from res obtain cl where
    cl: "setShardCapacities ?count ?q ?l [0 ..< ?n] (cachelist lru) = Inr cl"
    and lru': "lru' = lru\<lparr>cachelist := cl\<rparr>"
    by (auto simp: ShardSetCapacity_def Let_def split: sum.splits if_splits)
  from setShardCapacities_result[OF cl] have l: "length cl = ?n"
    and caps: "\<forall>i < ?n. lru_capacity (cl ! i) = shardCapacityAt ?count ?q ?l i"
    using len by auto
  have "map lru_capacity cl = map (shardCapacityAt ?count ?q ?l) [0 ..< ?n]"
    by (rule nth_equalityI) (use l caps in auto)
  also note shardCapacityAt_upt[OF c]
  finally show "map lru_capacity (cachelist lru') = expectedCapacities (shardCount lru) capacity"
    by (simp add: expectedCapacities_def Let_def lru')
  show "shardCount lru' = shardCount lru" by (simp add: lru')
qed

lemma sint_mult_64:
  fixes a b :: int64
  shows "- (2 ^ 63) \<le> sint a * sint b \<Longrightarrow> sint a * sint b < 2 ^ 63 \<Longrightarrow>
         sint (a * b) = sint a * sint b"
  by (simp add: sint_word_ariths signed_take_bit_int_eq_self)

lemma split_nonneg:
  fixes count capacity :: int64
  assumes n: "1 \<le>s count" and c: "0 \<le>s capacity"
  defines "q \<equiv> int64_div capacity count"
  shows "0 \<le>s q" and "0 \<le>s q + (capacity - q * count)"
proof -
  let ?c = "sint capacity" and ?n = "sint count"
  from n c have n1: "1 \<le> ?n" and c0: "0 \<le> ?c" by (simp_all add: word_sle_eq)
  have cb: "?c < 2 ^ 63" using sint_range_64[of capacity] by simp
  have sd: "?c sdiv ?n = ?c div ?n"
    using n1 c0 by (cases "?c = 0") (simp_all add: signed_divide_int_def sgn_if)
  have d0: "0 \<le> ?c div ?n" using n1 c0 by (simp add: pos_imp_zdiv_nonneg_iff)
  have dle: "?c div ?n * ?n \<le> ?c"
  proof -
    have "?c div ?n * ?n + ?c mod ?n = ?c" by (rule div_mult_mod_eq)
    moreover have "0 \<le> ?c mod ?n" using n1 by simp
    ultimately show ?thesis by linarith
  qed
  have dn: "?c div ?n \<le> ?c div ?n * ?n"
    using mult_left_mono[OF n1 d0] by simp
  have dc: "?c div ?n \<le> ?c" using dn dle by linarith
  have sq: "sint q = ?c div ?n"
    unfolding q_def int64_div_def sd using d0 dc cb by (intro sint_word_of_int_64) auto
  have m0: "0 \<le> ?c div ?n * ?n" using d0 n1 by simp
  have sm: "sint (q * count) = ?c div ?n * ?n"
    using sint_mult_64[of q count] sq m0 dle cb by auto
  have sl: "sint (capacity - q * count) = ?c - ?c div ?n * ?n"
    using sint_sub_64[of capacity "q * count"] sm m0 dle c0 cb by auto
  have r0: "0 \<le> ?c - ?c div ?n * ?n" using dle by simp
  have rn: "?c div ?n + (?c - ?c div ?n * ?n) \<le> ?c"
    using dn by simp
  have st: "sint (q + (capacity - q * count)) = ?c div ?n + (?c - ?c div ?n * ?n)"
    using sint_add_64[of q "capacity - q * count"] sq sl d0 r0 rn cb by auto
  show "0 \<le>s q" using sq d0 by (simp add: word_sle_eq)
  show "0 \<le>s q + (capacity - q * count)" using st d0 r0 by (simp add: word_sle_eq)
qed

lemma shardCapacityAt_nonneg:
  fixes count capacity :: int64
  assumes "1 \<le>s count" "0 \<le>s capacity"
  shows "0 \<le>s shardCapacityAt count (int64_div capacity count)
                  (capacity - int64_div capacity count * count) i"
  using split_nonneg[OF assms] by (simp add: shardCapacityAt_def)

lemma ShardSetCapacity_returns:
  assumes "shard_inv lru" "shards_size_inv lru" "0 \<le>s capacity"
  shows "\<exists>lru'. ShardSetCapacity capacity lru = Inr lru'"
proof -
  from assms(1) have c: "1 \<le>s shardCount lru"
    and len: "length (cachelist lru) = nat (sint (shardCount lru))"
    by (simp_all add: shard_inv_def)
  have "\<exists>cl'. setShardCapacities (shardCount lru) (int64_div capacity (shardCount lru))
           (capacity - int64_div capacity (shardCount lru) * shardCount lru)
           [0 ..< nat (sint (shardCount lru))] (cachelist lru) = Inr cl'"
  proof (rule setShardCapacities_returns)
    show "\<forall>c\<in>set (cachelist lru). size_inv c" using assms(2) by (simp add: shards_size_inv_def)
    show "\<forall>i\<in>set [0 ..< nat (sint (shardCount lru))]. i < length (cachelist lru)"
      using len by simp
    show "\<forall>i\<in>set [0 ..< nat (sint (shardCount lru))].
            0 \<le>s shardCapacityAt (shardCount lru) (int64_div capacity (shardCount lru))
               (capacity - int64_div capacity (shardCount lru) * shardCount lru) i"
      using shardCapacityAt_nonneg[OF c assms(3)] by blast
  qed
  moreover from c have "shardCount lru \<noteq> 0" by (auto simp: word_sle_eq)
  ultimately show ?thesis by (auto simp: ShardSetCapacity_def Let_def)
qed

lemma ShardSetCapacity_inv:
  assumes "shard_inv lru" "ShardSetCapacity capacity lru = Inr lru'"
  shows "shard_inv lru'"
proof -
  from ShardSetCapacity_capacities[OF assms]
  have "length (map lru_capacity (cachelist lru')) = length (expectedCapacities (shardCount lru) capacity)"
    and c: "shardCount lru' = shardCount lru"
    by simp_all
  moreover from assms(1) have "1 \<le>s shardCount lru" by (simp add: shard_inv_def)
  then have "1 \<le> nat (sint (shardCount lru))" by (simp add: word_sle_eq)
  ultimately show ?thesis
    using assms(1) by (simp add: shard_inv_def expectedCapacities_def Let_def)
qed

lemma foldl_add_sum_list:
  fixes f :: "'a \<Rightarrow> 'b::comm_monoid_add"
  shows "foldl (\<lambda>acc x. acc + f x) a xs = a + sum_list (map f xs)"
  by (induction xs arbitrary: a) (simp_all add: add.assoc)

lemma ShardCapacity_eq_ShardSize: "ShardCapacity lru = ShardSize lru"
  by (simp add: ShardCapacity_def ShardSize_def)

lemma ShardStats_sums:
  "ShardStats lru = (sum_list (map Length (cachelist lru)),
                     sum_list (map lru_size (cachelist lru)),
                     sum_list (map lru_capacity (cachelist lru)))"
proof -
  have "foldl (\<lambda>(length', size', capacity') shard.
              (case Stats shard of (l, s, c) \<Rightarrow> (length' + l, size' + s, capacity' + c)))
           (a, b, c) xs
        = (a + sum_list (map Length xs), b + sum_list (map lru_size xs),
           c + sum_list (map lru_capacity xs))" for a b c xs
    by (induction xs arbitrary: a b c) (simp_all add: Stats_def Length_def add.assoc)
  then show ?thesis by (simp add: ShardStats_def)
qed

section \<open>Sizes without wrap-around, and the states at rest\<close>

lemma sum_list_nonneg_int:
  fixes f :: "'a \<Rightarrow> int"
  shows "(\<And>x. x \<in> set xs \<Longrightarrow> 0 \<le> f x) \<Longrightarrow> 0 \<le> (\<Sum>x\<leftarrow>xs. f x)"
  by (induction xs) auto

lemma member_le_sum_list_int:
  fixes f :: "'a \<Rightarrow> int"
  assumes "\<And>x. x \<in> set xs \<Longrightarrow> 0 \<le> f x" "e \<in> set xs"
  shows "f e \<le> (\<Sum>x\<leftarrow>xs. f x)"
  using assms
proof (induction xs)
  case Nil
  then show ?case by simp
next
  case (Cons a xs)
  have r: "0 \<le> (\<Sum>x\<leftarrow>xs. f x)" using Cons.prems(1) by (intro sum_list_nonneg_int) simp
  show ?case
  proof (cases "e = a")
    case True
    with r show ?thesis by simp
  next
    case False
    with Cons.prems have "e \<in> set xs" by simp
    with Cons.IH Cons.prems(1) have "f e \<le> (\<Sum>x\<leftarrow>xs. f x)" by simp
    moreover have "0 \<le> f a" using Cons.prems(1) by simp
    ultimately show ?thesis by simp
  qed
qed

lemma sized_entry_bounds:
  assumes "sized lru" "e \<in> set (lru_list lru)"
  shows "0 \<le> sint (entry_size (lru_elems lru e))"
    and "sint (entry_size (lru_elems lru e)) \<le> sint (lru_size lru)"
proof -
  from assms(1) have nn: "\<And>x. x \<in> set (lru_list lru) \<Longrightarrow> 0 \<le> sint (entry_size (lru_elems lru x))"
    and s: "sint (lru_size lru) = (\<Sum>e\<leftarrow>lru_list lru. sint (entry_size (lru_elems lru e)))"
    by (simp_all add: sized_def word_sle_eq)
  from nn assms(2) show "0 \<le> sint (entry_size (lru_elems lru e))" by simp
  from member_le_sum_list_int[of "lru_list lru" "\<lambda>e. sint (entry_size (lru_elems lru e))" e]
    nn assms(2) s
  show "sint (entry_size (lru_elems lru e)) \<le> sint (lru_size lru)" by simp
qed

lemma sized_size_nonneg: "sized lru \<Longrightarrow> 0 \<le> sint (lru_size lru)"
  unfolding sized_def by (simp add: word_sle_eq sum_list_nonneg_int)

lemma sized_sub:
  assumes "sized lru" "e \<in> set (lru_list lru)"
  shows "sint (lru_size lru - entry_size (lru_elems lru e))
         = sint (lru_size lru) - sint (entry_size (lru_elems lru e))"
proof -
  note b = sized_entry_bounds[OF assms]
  have "sint (lru_size lru) < 2 ^ 63" using sint_range_64[of "lru_size lru"] by simp
  with b show ?thesis by (intro sint_sub_64) auto
qed

lemma sized_remove:
  assumes s: "sized lru" and e: "e \<in> set (lru_list lru)"
  shows "sized (lru\<lparr>lru_list := remove1 e (lru_list lru),
                     lru_table := t,
                     lru_size := lru_size lru - entry_size (lru_elems lru e),
                     lru_purged := pl\<rparr>)"
proof -
  have "(\<Sum>x\<leftarrow>remove1 e (lru_list lru). sint (entry_size (lru_elems lru x)))
        = (\<Sum>x\<leftarrow>lru_list lru. sint (entry_size (lru_elems lru x)))
          - sint (entry_size (lru_elems lru e))"
    using sum_list_map_remove1[OF e, of "\<lambda>x. sint (entry_size (lru_elems lru x))"] by simp
  moreover have "\<forall>x \<in> set (remove1 e (lru_list lru)). 0 \<le>s entry_size (lru_elems lru x)"
    using s notin_set_remove1 unfolding sized_def by (metis (no_types, lifting))
  ultimately show ?thesis
    using s sized_sub[OF s e] by (simp add: sized_def)
qed

lemma evictElem_sized:
  "sized lru \<Longrightarrow> e \<in> set (lru_list lru) \<Longrightarrow> sized (evictElem e lru)"
  unfolding evictElem_def Let_def list_Remove_def by (rule sized_remove)

lemma checkCapacity_sized:
  "sized lru \<Longrightarrow> checkCapacity lru = Inr fin \<Longrightarrow> sized fin"
proof (induction lru rule: checkCapacity.induct)
  case (1 lru)
  show ?case
  proof (cases "lru_capacity lru <s lru_size lru")
    case False
    with "1.prems" show ?thesis by (simp add: checkCapacity.simps)
  next
    case over: True
    with "1.prems" obtain e where e: "list_Back (lru_list lru) = Some e"
      and rec: "checkCapacity (evictElem e lru) = Inr fin"
      by (auto simp: checkCapacity.simps[of lru] split: option.splits)
    from e have "e \<in> set (lru_list lru)" by (simp add: list_Back_Some)
    with "1.prems" have "sized (evictElem e lru)" by (simp add: evictElem_sized)
    from "1.IH"[OF over e this rec] show ?thesis .
  qed
qed

lemma sized_size_inv: "sized lru \<Longrightarrow> size_inv lru"
proof -
  assume s: "sized lru"
  have "(word_of_int (\<Sum>x\<leftarrow>xs. sint (f x)) :: int64) = (\<Sum>x\<leftarrow>xs. f x)" for f :: "'a \<Rightarrow> int64" and xs
    by (induction xs) simp_all
  from this[of "\<lambda>e. entry_size (lru_elems lru e)" "lru_list lru"] s
  have "word_of_int (sint (lru_size lru)) = (\<Sum>e\<leftarrow>lru_list lru. entry_size (lru_elems lru e))"
    by (simp add: sized_def)
  then show ?thesis by (simp add: size_inv_def entrySizes_def)
qed

lemma sizedI:
  assumes "\<And>e. e \<in> set (lru_list lru) \<Longrightarrow> 0 \<le>s entry_size (lru_elems lru e)"
    and "sint (lru_size lru) = (\<Sum>e\<leftarrow>lru_list lru. sint (entry_size (lru_elems lru e)))"
  shows "sized lru"
  unfolding sized_def using assms by blast

lemma sized_nonneg:
  "sized lru \<Longrightarrow> e \<in> set (lru_list lru) \<Longrightarrow> 0 \<le>s entry_size (lru_elems lru e)"
  unfolding sized_def by blast

lemma sized_sum:
  "sized lru \<Longrightarrow>
   sint (lru_size lru) = (\<Sum>e\<leftarrow>lru_list lru. sint (entry_size (lru_elems lru e)))"
  unfolding sized_def by blast

lemma moveToFront_sized: "sized lru \<Longrightarrow> sized (moveToFront e lru)"
proof (cases "e \<in> set (lru_list lru)")
  case False
  then show "sized lru \<Longrightarrow> ?thesis" by (simp add: moveToFront_def list_MoveToFront_def)
next
  case True
  assume s: "sized lru"
  have l: "lru_list (moveToFront e lru) = e # remove1 e (lru_list lru)"
    and o: "lru_size (moveToFront e lru) = lru_size lru"
       "lru_elems (moveToFront e lru) = lru_elems lru"
    using True by (simp_all add: moveToFront_def list_MoveToFront_def)
  show ?thesis
  proof (rule sizedI)
    fix x assume "x \<in> set (lru_list (moveToFront e lru))"
    with True set_remove1_subset[of e "lru_list lru"] have "x \<in> set (lru_list lru)"
      unfolding l by auto
    from sized_nonneg[OF s this] show "0 \<le>s entry_size (lru_elems (moveToFront e lru) x)"
      by (simp add: o)
  next
    from sum_list_map_remove1[OF True, of "\<lambda>x. sint (entry_size (lru_elems lru x))"]
    show "sint (lru_size (moveToFront e lru))
          = (\<Sum>x\<leftarrow>lru_list (moveToFront e lru). sint (entry_size (lru_elems (moveToFront e lru) x)))"
      unfolding l o using sized_sum[OF s] by simp
  qed
qed

lemma addNew_pushed_sized:
  assumes s: "sized lru" and f: "lru_alloc lru \<notin> set (lru_list lru)"
    and a0: "0 \<le>s getSize v" and vb: "sint (lru_size lru) + sint (getSize v) < 2 ^ 63"
  shows "sized (addNew_pushed k v lru)" (is "sized ?lru'")
proof -
  let ?new = "\<lparr>entry_key = k, entry_value = v, entry_size = getSize v\<rparr>"
  have l: "lru_list ?lru' = lru_alloc lru # lru_list lru"
    and el: "lru_elems ?lru' = (lru_elems lru)(lru_alloc lru := ?new)"
    and sz: "lru_size ?lru' = lru_size lru + getSize v"
    by (simp_all add: addNew_pushed_def Let_def list_PushFront_def)
  from a0 have v0: "0 \<le> sint (getSize v)" by (simp add: word_sle_eq)
  have "sint (lru_size lru + getSize v) = sint (lru_size lru) + sint (getSize v)"
    using v0 vb sized_size_nonneg[OF s] by (intro sint_add_64) auto
  moreover have "(\<Sum>e\<leftarrow>lru_list lru. sint (entry_size (((lru_elems lru)(lru_alloc lru := ?new)) e)))
        = (\<Sum>e\<leftarrow>lru_list lru. sint (entry_size (lru_elems lru e)))"
    by (rule sum_list_upd_fresh[OF f, of "\<lambda>x. sint (entry_size x)"])
  moreover have "0 \<le>s entry_size (((lru_elems lru)(lru_alloc lru := ?new)) x)"
    if "x \<in> set (lru_list lru)" for x
    using sized_nonneg[OF s that] that f by auto
  moreover note sized_sum[OF s]
  ultimately show ?thesis
    using a0 unfolding sized_def l el sz
    by (simp add: fun_upd_same del: fun_upd_apply)
qed

lemma updateInplace_written_sized:
  assumes s: "sized lru" and e: "e \<in> set (lru_list lru)" and d: "distinct (lru_list lru)"
    and a0: "0 \<le>s getSize v"
    and vb: "sint (lru_size lru) - sint (entry_size (lru_elems lru e)) + sint (getSize v)
             < 2 ^ 63"
  shows "sized (updateInplace_written e v lru)"
proof -
  let ?old = "lru_elems lru e"
  let ?new = "?old\<lparr>entry_value := v, entry_size := getSize v\<rparr>"
  let ?mid = "lru\<lparr>lru_purged := safeOnPurge (entry_value ?old) PURGE_REASON_UPDATE (lru_purged lru),
                   lru_elems := (lru_elems lru)(e := ?new),
                   lru_size := lru_size lru + (getSize v - entry_size ?old)\<rparr>"
  from a0 have v0: "0 \<le> sint (getSize v)" by (simp add: word_sle_eq)
  note b = sized_entry_bounds[OF s e]
  have "lru_size lru + (getSize v - entry_size ?old)
        = word_of_int (sint (lru_size lru) + sint (getSize v) - sint (entry_size ?old))"
    by simp
  then have sz: "sint (lru_size lru + (getSize v - entry_size ?old))
        = sint (lru_size lru) + sint (getSize v) - sint (entry_size ?old)"
    using b v0 vb by (simp only:) (intro sint_word_of_int_64, auto)
  have sm: "(\<Sum>x\<leftarrow>lru_list lru. sint (entry_size (((lru_elems lru)(e := ?new)) x)))
        = (\<Sum>x\<leftarrow>lru_list lru. sint (entry_size (lru_elems lru x)))
          + (sint (entry_size ?new) - sint (entry_size ?old))"
    by (rule sum_list_upd_member[OF d e, of "\<lambda>x. sint (entry_size x)"])
  have nn: "0 \<le>s entry_size (((lru_elems lru)(e := ?new)) x)"
    if "x \<in> set (lru_list lru)" for x
    using sized_nonneg[OF s that] a0 by auto
  have "sized ?mid"
    using sized_sum[OF s] sz sm nn unfolding sized_def by (simp del: fun_upd_apply)
  then show ?thesis
    unfolding updateInplace_written_def Let_def by (rule moveToFront_sized)
qed

lemma Delete_sized: "index_inv lru \<Longrightarrow> sized lru \<Longrightarrow> sized (snd (Delete k lru))"
proof (cases "lru_table lru k")
  case None
  then show "sized lru \<Longrightarrow> ?thesis" by (simp add: Delete_def)
next
  case (Some e)
  assume a: "index_inv lru" "sized lru"
  from index_inv_tableD[OF a(1) Some] have "e \<in> set (lru_list lru)" by simp
  from sized_remove[OF a(2) this] Some show ?thesis
    by (simp add: Delete_def list_Remove_def)
qed

lemma Delete_within:
  assumes "index_inv lru" "sized lru" "lru_size lru \<le>s lru_capacity lru"
  shows "lru_size (snd (Delete k lru)) \<le>s lru_capacity (snd (Delete k lru))"
proof (cases "lru_table lru k")
  case None
  with assms(3) show ?thesis by (simp add: Delete_def)
next
  case (Some e)
  from index_inv_tableD[OF assms(1) Some] have e: "e \<in> set (lru_list lru)" by simp
  from sized_sub[OF assms(2) e] sized_entry_bounds(1)[OF assms(2) e] assms(3) Some
  show ?thesis by (simp add: Delete_def word_sle_eq)
qed

lemma Clear_sized: "sized (Clear lru)"
  by (simp add: Clear_def sized_def)

lemma NewLRUCacheInt_sized: "sized (NewLRUCacheInt c)"
  by (simp add: NewLRUCacheInt_def sized_def)

lemma checkCapacity_good:
  assumes "index_inv lru" "sized lru" "0 \<le>s lru_capacity lru" "checkCapacity lru = Inr fin"
  shows "good fin"
  unfolding good_def
  using checkCapacity_index_inv[OF assms(1,4)] checkCapacity_sized[OF assms(2,4)]
    checkCapacity_within[OF assms(4)] checkCapacity_fields[OF assms(4)] assms(3)
  by simp

lemma addNew_good:
  assumes g: "good lru" and k: "lru_table lru k = None" and a: "admissible k v lru"
    and r: "addNew k v lru = Inr fin"
  shows "good fin"
proof (rule checkCapacity_good)
  from g have i: "index_inv lru" and s: "sized lru" and c: "0 \<le>s lru_capacity lru"
    by (simp_all add: good_def)
  show "index_inv (addNew_pushed k v lru)" by (rule addNew_pushed_index_inv[OF i k])
  show "sized (addNew_pushed k v lru)"
    using a k by (intro addNew_pushed_sized[OF s index_inv_alloc_fresh[OF i]])
      (simp_all add: admissible_def replacedSize_def)
  show "0 \<le>s lru_capacity (addNew_pushed k v lru)"
    using c by (simp add: addNew_pushed_def Let_def)
  show "checkCapacity (addNew_pushed k v lru) = Inr fin" using r by (simp add: addNew_def)
qed

lemma updateInplace_good:
  assumes g: "good lru" and k: "lru_table lru k = Some e" and a: "admissible k v lru"
    and r: "updateInplace e v lru = Inr fin"
  shows "good fin"
proof (rule checkCapacity_good)
  from g have i: "index_inv lru" and s: "sized lru" and c: "0 \<le>s lru_capacity lru"
    by (simp_all add: good_def)
  from index_inv_tableD[OF i k] have e: "e \<in> set (lru_list lru)" by simp
  show "index_inv (updateInplace_written e v lru)" by (rule updateInplace_written_index_inv[OF i])
  show "sized (updateInplace_written e v lru)"
    using a k by (intro updateInplace_written_sized[OF s e index_inv_distinct[OF i]])
      (simp_all add: admissible_def replacedSize_def)
  show "0 \<le>s lru_capacity (updateInplace_written e v lru)"
    using c by (simp add: updateInplace_written_def Let_def moveToFront_def)
  show "checkCapacity (updateInplace_written e v lru) = Inr fin"
    using r by (simp add: updateInplace_def)
qed

lemma set_lru_good:
  "good lru \<Longrightarrow> admissible k v lru \<Longrightarrow> set_lru k v lru = Inr fin \<Longrightarrow> good fin"
  unfolding set_lru_def
  by (cases "lru_table lru k") (auto intro: addNew_good updateInplace_good)

lemma moveToFront_good: "good lru \<Longrightarrow> good (moveToFront e lru)"
  unfolding good_def
  using moveToFront_index_inv[of lru e] moveToFront_sized[of lru e]
  by (simp add: moveToFront_def)

lemma SetIfAbsent_good:
  "good lru \<Longrightarrow> lru_table lru k = None \<longrightarrow> admissible k v lru \<Longrightarrow>
   SetIfAbsent k v lru = Inr fin \<Longrightarrow> good fin"
  unfolding SetIfAbsent_def
  by (cases "lru_table lru k") (auto intro: addNew_good moveToFront_good)

lemma Get_good:
  assumes g: "good lru" and l: "loads_admissible k lru" and r: "Get k lru = Inr (res, fin)"
  shows "good fin"
proof (cases "lru_table lru k")
  case (Some e)
  with r have "fin = moveToFront e lru" by (simp add: Get_def Let_def)
  with g show ?thesis by (simp add: moveToFront_good)
next
  case None
  show ?thesis
  proof (cases "lru_onMiss lru")
    case n: None
    with None r g show ?thesis by (simp add: Get_def)
  next
    case (Some onMiss)
    obtain v ok where o: "onMiss k = (v, ok)" by (cases "onMiss k")
    show ?thesis
    proof (cases ok)
      case False
      with None Some o r g show ?thesis by (simp add: Get_def)
    next
      case True
      with None Some o l have a: "admissible k v lru" by (simp add: loads_admissible_def)
      from None Some o True r have "set_lru k v lru = Inr fin"
        by (simp add: Get_def split: sum.splits)
      from set_lru_good[OF g a this] show ?thesis .
    qed
  qed
qed

lemma Delete_good: "good lru \<Longrightarrow> good (snd (Delete k lru))"
  unfolding good_def
  using Delete_index_inv[of lru k] Delete_sized[of lru k] Delete_within[of lru k]
  by (auto simp: Delete_def split: option.splits)

lemma Clear_good: "good lru \<Longrightarrow> good (Clear lru)"
  unfolding good_def using Clear_index_inv[of lru] Clear_sized[of lru]
  by (simp add: Clear_def)

lemma SetCapacity_good:
  assumes "good lru" "0 \<le>s c" "SetCapacity c lru = Inr fin"
  shows "good fin"
proof (rule checkCapacity_good)
  show "index_inv (lru\<lparr>lru_capacity := c\<rparr>)"
    using assms(1) by (simp add: good_def index_inv_def)
  show "sized (lru\<lparr>lru_capacity := c\<rparr>)" using assms(1) by (simp add: good_def sized_def)
  show "0 \<le>s lru_capacity (lru\<lparr>lru_capacity := c\<rparr>)" using assms(2) by simp
  show "checkCapacity (lru\<lparr>lru_capacity := c\<rparr>) = Inr fin"
    using assms(3) by (simp add: SetCapacity_def)
qed

lemma OnMiss_good: "good lru \<Longrightarrow> good (OnMiss f lru)"
  by (simp add: good_def OnMiss_def index_inv_def sized_def)

lemma NewLRUCacheInt_good: "0 \<le>s c \<Longrightarrow> good (NewLRUCacheInt c)"
  unfolding good_def using NewLRUCacheInt_index_inv[of c] NewLRUCacheInt_sized[of c]
  by (simp add: NewLRUCacheInt_def)

lemma reachable_good: "reachable lru \<Longrightarrow> good lru"
proof (induction rule: reachable.induct)
  case (reach_New capacity)
  then show ?case by (rule NewLRUCacheInt_good)
next
  case (reach_Get lru k r lru')
  then show ?case using Get_good by blast
next
  case (reach_Set lru k v lru')
  then show ?case using set_lru_good[of lru k v lru'] by (simp add: Set_lru_def)
next
  case (reach_SetIfAbsent lru k v lru')
  from SetIfAbsent_good[OF reach_SetIfAbsent.IH reach_SetIfAbsent.hyps(2,3)]
  show ?case .
next
  case (reach_Delete lru k)
  then show ?case by (simp add: Delete_good)
next
  case (reach_Clear lru)
  then show ?case by (simp add: Clear_good)
next
  case (reach_SetCapacity lru capacity lru')
  then show ?case using SetCapacity_good by blast
next
  case (reach_OnMiss lru onMiss)
  then show ?case by (simp add: OnMiss_good)
qed

lemma addNew_consistent:
  assumes "consistent lru" "lru_table lru k = None" "addNew k v lru = Inr fin"
  shows "consistent fin"
proof -
  from assms(1) have i: "index_inv lru" and s: "size_inv lru" by (simp_all add: consistent_def)
  from assms(3) have c: "checkCapacity (addNew_pushed k v lru) = Inr fin" by (simp add: addNew_def)
  from checkCapacity_index_inv[OF addNew_pushed_index_inv[OF i assms(2)] c]
    checkCapacity_size_inv[OF addNew_pushed_size_inv[OF i s] c]
  show ?thesis by (simp add: consistent_def)
qed

lemma updateInplace_consistent:
  assumes "consistent lru" "lru_table lru k = Some e" "updateInplace e v lru = Inr fin"
  shows "consistent fin"
proof -
  from assms(1) have i: "index_inv lru" and s: "size_inv lru" by (simp_all add: consistent_def)
  from index_inv_tableD[OF i assms(2)] have e: "e \<in> set (lru_list lru)" by simp
  from assms(3) have c: "checkCapacity (updateInplace_written e v lru) = Inr fin"
    by (simp add: updateInplace_def)
  from checkCapacity_index_inv[OF updateInplace_written_index_inv[OF i] c]
    checkCapacity_size_inv[OF updateInplace_written_size_inv[OF i s e] c]
  show ?thesis by (simp add: consistent_def)
qed

lemma set_lru_consistent:
  "consistent lru \<Longrightarrow> set_lru k v lru = Inr fin \<Longrightarrow> consistent fin"
  unfolding set_lru_def
  by (cases "lru_table lru k") (auto intro: addNew_consistent updateInplace_consistent)

lemma moveToFront_consistent: "consistent lru \<Longrightarrow> consistent (moveToFront e lru)"
  unfolding consistent_def
  using moveToFront_index_inv[of lru e] moveToFront_size_inv[of lru e] by simp

lemma SetIfAbsent_consistent:
  "consistent lru \<Longrightarrow> SetIfAbsent k v lru = Inr fin \<Longrightarrow> consistent fin"
  unfolding SetIfAbsent_def
  by (cases "lru_table lru k") (auto intro: addNew_consistent moveToFront_consistent)

lemma Get_consistent:
  assumes g: "consistent lru" and r: "Get k lru = Inr (res, fin)"
  shows "consistent fin"
proof (cases "lru_table lru k")
  case (Some e)
  with r have "fin = moveToFront e lru" by (simp add: Get_def Let_def)
  with g show ?thesis by (simp add: moveToFront_consistent)
next
  case None
  show ?thesis
  proof (cases "lru_onMiss lru")
    case n: None
    with None r g show ?thesis by (simp add: Get_def)
  next
    case (Some onMiss)
    obtain v ok where o: "onMiss k = (v, ok)" by (cases "onMiss k")
    show ?thesis
    proof (cases ok)
      case False
      with None Some o r g show ?thesis by (simp add: Get_def)
    next
      case True
      from None Some o True r have "set_lru k v lru = Inr fin"
        by (simp add: Get_def split: sum.splits)
      from set_lru_consistent[OF g this] show ?thesis .
    qed
  qed
qed

lemma Delete_consistent: "consistent lru \<Longrightarrow> consistent (snd (Delete k lru))"
  unfolding consistent_def
  using Delete_index_inv[of lru k] Delete_size_inv[of lru k] by simp

lemma Clear_consistent: "consistent (Clear lru)"
  unfolding consistent_def using Clear_index_inv[of lru] Clear_size_inv[of lru] by simp

lemma index_inv_capacity_update: "index_inv lru \<Longrightarrow> index_inv (lru\<lparr>lru_capacity := c\<rparr>)"
  by (simp add: index_inv_def)

lemma SetCapacity_consistent:
  assumes "consistent lru" "SetCapacity c lru = Inr fin"
  shows "consistent fin"
proof -
  from assms(1) have i: "index_inv lru" and s: "size_inv lru" by (simp_all add: consistent_def)
  from assms(2) have c: "checkCapacity (lru\<lparr>lru_capacity := c\<rparr>) = Inr fin"
    by (simp add: SetCapacity_def)
  from checkCapacity_index_inv[OF index_inv_capacity_update[OF i] c]
    checkCapacity_size_inv[OF size_inv_capacity_update[OF s] c]
  show ?thesis by (simp add: consistent_def)
qed

lemma OnMiss_consistent: "consistent lru \<Longrightarrow> consistent (OnMiss f lru)"
  by (simp add: consistent_def OnMiss_def index_inv_def size_inv_def entrySizes_def)

lemma NewLRUCacheInt_consistent: "consistent (NewLRUCacheInt c)"
  unfolding consistent_def
  using NewLRUCacheInt_index_inv[of c] NewLRUCacheInt_size_inv[of c] by simp

lemma atRest_consistent: "atRest lru \<Longrightarrow> consistent lru"
proof (induction rule: atRest.induct)
  case (rest_New capacity)
  show ?case by (rule NewLRUCacheInt_consistent)
next
  case (rest_Get lru k r lru')
  from Get_consistent[OF rest_Get.IH rest_Get.hyps(2)] show ?case .
next
  case (rest_Set lru k v lru')
  then show ?case using set_lru_consistent[of lru k v lru'] by (simp add: Set_lru_def)
next
  case (rest_SetIfAbsent lru k v lru')
  from SetIfAbsent_consistent[OF rest_SetIfAbsent.IH rest_SetIfAbsent.hyps(2)] show ?case .
next
  case (rest_Delete lru k)
  then show ?case by (simp add: Delete_consistent)
next
  case (rest_Clear lru)
  show ?case by (rule Clear_consistent)
next
  case (rest_SetCapacity lru capacity lru')
  from SetCapacity_consistent[OF rest_SetCapacity.IH rest_SetCapacity.hyps(2)] show ?case .
next
  case (rest_OnMiss lru onMiss)
  then show ?case by (simp add: OnMiss_consistent)
qed

lemma reachable_atRest: "reachable lru \<Longrightarrow> atRest lru"
  by (induction rule: reachable.induct) (auto intro: atRest.intros)

section \<open>When the operations return, and what the loop does to the head\<close>

lemma addNew_returns:
  assumes "index_inv lru" "size_inv lru" "0 \<le>s lru_capacity lru"
  shows "\<exists>fin. addNew k v lru = Inr fin"
  unfolding addNew_def
  using assms(3)
  by (intro checkCapacity_returns addNew_pushed_size_inv[OF assms(1,2)])
     (simp add: addNew_pushed_def Let_def)

lemma updateInplace_returns:
  assumes "index_inv lru" "size_inv lru" "e \<in> set (lru_list lru)" "0 \<le>s lru_capacity lru"
  shows "\<exists>fin. updateInplace e v lru = Inr fin"
  unfolding updateInplace_def
  using assms(4)
  by (intro checkCapacity_returns updateInplace_written_size_inv[OF assms(1,2,3)])
     (simp add: updateInplace_written_def Let_def moveToFront_def)

lemma set_lru_returns:
  assumes "index_inv lru" "size_inv lru" "0 \<le>s lru_capacity lru"
  shows "\<exists>fin. set_lru k v lru = Inr fin"
proof (cases "lru_table lru k")
  case None
  with addNew_returns[OF assms] show ?thesis by (simp add: set_lru_def)
next
  case (Some e)
  from index_inv_tableD[OF assms(1) Some] have "e \<in> set (lru_list lru)" by simp
  from updateInplace_returns[OF assms(1,2) this assms(3)] Some show ?thesis
    by (simp add: set_lru_def)
qed

text \<open>What the loop leaves is a front segment of the list it started from.\<close>

lemma enforced_list:
  "enforced mid fin \<Longrightarrow> \<exists>n \<le> length (lru_list mid).
     lru_list fin = take (length (lru_list mid) - n) (lru_list mid)"
  unfolding enforced_def by (auto simp: evictTail_def Let_def)

lemma checkCapacity_head:
  assumes d: "distinct (lru_list mid)" and r: "checkCapacity mid = Inr fin"
    and l: "lru_list mid = h # rest"
  shows "lru_list fin = [] \<or> (\<exists>ks. lru_list fin = h # ks)"
proof -
  from enforced_list[OF checkCapacity_enforced[OF d r]] obtain n where
    "lru_list fin = take (length (lru_list mid) - n) (lru_list mid)" by blast
  then show ?thesis unfolding l by (cases "Suc (length rest) - n") auto
qed

text \<open>An entry at the head that is larger than the capacity is evicted with all the rest.\<close>

lemma oversized_head_evicted:
  assumes s: "sized mid" and d: "distinct (lru_list mid)" and r: "checkCapacity mid = Inr fin"
    and l: "lru_list mid = h # rest"
    and big: "lru_capacity mid <s entry_size (lru_elems mid h)"
  shows "lru_list fin = []"
proof (rule ccontr)
  assume "lru_list fin \<noteq> []"
  with checkCapacity_head[OF d r l] have h: "h \<in> set (lru_list fin)" by auto
  note f = checkCapacity_fields[OF r]
  from sized_entry_bounds(2)[OF checkCapacity_sized[OF s r] h] f
  have "sint (entry_size (lru_elems mid h)) \<le> sint (lru_size fin)" by simp
  moreover from checkCapacity_within[OF r] f have "sint (lru_size fin) \<le> sint (lru_capacity mid)"
    by (simp add: word_sle_eq)
  ultimately show False using big by (simp add: word_sless_alt)
qed


lemma Keys_Cons:
  "lru_list lru = e # es \<Longrightarrow> Keys lru = entry_key (lru_elems lru e) # map (\<lambda>x. entry_key (lru_elems lru x)) es"
  by (simp add: Keys_def)

lemma moveToFront_list:
  "e \<in> set (lru_list lru) \<Longrightarrow> lru_list (moveToFront e lru) = e # remove1 e (lru_list lru)"
  by (simp add: moveToFront_def list_MoveToFront_def)

lemma updateInplace_written_list:
  "e \<in> set (lru_list lru) \<Longrightarrow>
   lru_list (updateInplace_written e v lru) = e # remove1 e (lru_list lru)"
  by (simp add: updateInplace_written_def Let_def moveToFront_def list_MoveToFront_def)


lemma index_inv_empty_table:
  "index_inv lru \<Longrightarrow> lru_list lru = [] \<Longrightarrow> lru_table lru k = None"
  using index_inv_tableD[of lru k] by (cases "lru_table lru k") auto

lemma addNew_index_inv:
  "index_inv lru \<Longrightarrow> lru_table lru k = None \<Longrightarrow> addNew k v lru = Inr fin \<Longrightarrow> index_inv fin"
  unfolding addNew_def
  using checkCapacity_index_inv[OF addNew_pushed_index_inv] by blast

lemma SetIfAbsent_index_inv:
  assumes "index_inv lru" "SetIfAbsent k v lru = Inr fin"
  shows "index_inv fin"
proof (cases "lru_table lru k")
  case None
  with assms show ?thesis using addNew_index_inv by (simp add: SetIfAbsent_def)
next
  case (Some e)
  with assms show ?thesis using moveToFront_index_inv by (auto simp: SetIfAbsent_def)
qed

text \<open>An entry found under \<open>k\<close> after an insertion of \<open>k\<close> is the inserted one.\<close>

lemma addNew_entry:
  assumes inv: "index_inv lru" and k: "lru_table lru k = None"
    and r: "addNew k v lru = Inr fin" and e: "lru_table fin k = Some e"
  shows "e = lru_alloc lru"
    and "lru_elems fin e = \<lparr>entry_key = k, entry_value = v, entry_size = getSize v\<rparr>"
proof -
  let ?mid = "addNew_pushed k v lru"
  from r have c: "checkCapacity ?mid = Inr fin" by (simp add: addNew_def)
  have ml: "lru_list ?mid = lru_alloc lru # lru_list lru"
    and me: "lru_elems ?mid = (lru_elems lru)
               (lru_alloc lru := \<lparr>entry_key = k, entry_value = v, entry_size = getSize v\<rparr>)"
    by (simp_all add: addNew_pushed_def Let_def list_PushFront_def)
  note fe = checkCapacity_fields[OF c]
  from index_inv_tableD[OF addNew_index_inv[OF inv k r] e]
  have ef: "e \<in> set (lru_list fin)" and ek: "entry_key (lru_elems fin e) = k" by simp_all
  from enforced_list[OF checkCapacity_enforced[OF addNew_pushed_distinct[OF inv] c]] ef
  have "e \<in> set (lru_list ?mid)" by (auto dest: in_set_takeD)
  then have "e = lru_alloc lru \<or> e \<in> set (lru_list lru)" by (simp add: ml)
  then show a: "e = lru_alloc lru"
  proof
    assume o: "e \<in> set (lru_list lru)"
    with index_inv_alloc_fresh[OF inv] have "e \<noteq> lru_alloc lru" by auto
    with ek fe me have "entry_key (lru_elems lru e) = k" by simp
    with index_inv_listD[OF inv o] k show ?thesis by simp
  qed
  with fe me show "lru_elems fin e = \<lparr>entry_key = k, entry_value = v, entry_size = getSize v\<rparr>"
    by simp
qed

lemma cacheFullCalls_append:
  "cacheFullCalls (xs @ ys) = cacheFullCalls xs @ cacheFullCalls ys"
  by (simp add: cacheFullCalls_def)

lemma enforced_emptied:
  assumes "enforced mid fin" "lru_list fin = []"
  shows "fin = evictTail (length (lru_list mid)) mid"
proof -
  from assms(1) obtain n where n: "n \<le> length (lru_list mid)" and f: "fin = evictTail n mid"
    unfolding enforced_def by blast
  from f have "lru_list fin = take (length (lru_list mid) - n) (lru_list mid)"
    by (simp add: evictTail_def Let_def)
  with assms(2) n have "n = length (lru_list mid)" by (cases "lru_list mid") auto
  with f show ?thesis by simp
qed

text \<open>
  Inserting a value larger than the capacity empties the cache: every old entry is evicted,
  from the tail, and the new entry last.
\<close>

lemma oversized_insert:
  assumes inv: "index_inv lru" and s: "sized lru" and c0: "0 \<le>s lru_capacity lru"
    and k: "lru_table lru k = None" and a: "admissible k v lru"
    and big: "lru_capacity lru <s getSize v"
  shows "\<exists>fin. addNew k v lru = Inr fin \<and> lru_list fin = [] \<and> lru_table fin = Map.empty \<and>
           lru_size fin = 0 \<and> lru_capacity fin = lru_capacity lru \<and>
           lru_onMiss fin = lru_onMiss lru \<and>
           lru_purged fin = lru_purged lru
             @ cacheFullCalls (map (lru_elems lru) (rev (lru_list lru)))
             @ cacheFullCalls [\<lparr>entry_key = k, entry_value = v, entry_size = getSize v\<rparr>]"
proof -
  let ?mid = "addNew_pushed k v lru"
  let ?new = "\<lparr>entry_key = k, entry_value = v, entry_size = getSize v\<rparr>"
  have ml: "lru_list ?mid = lru_alloc lru # lru_list lru"
    and me: "lru_elems ?mid = (lru_elems lru)(lru_alloc lru := ?new)"
    and mc: "lru_capacity ?mid = lru_capacity lru"
    and mo: "lru_onMiss ?mid = lru_onMiss lru"
    and mp: "lru_purged ?mid = lru_purged lru"
    by (simp_all add: addNew_pushed_def Let_def list_PushFront_def)
  note fresh = index_inv_alloc_fresh[OF inv]
  have ms: "sized ?mid"
    using a k by (intro addNew_pushed_sized[OF s fresh])
      (simp_all add: admissible_def replacedSize_def)
  have md: "distinct (lru_list ?mid)" by (rule addNew_pushed_distinct[OF inv])
  from checkCapacity_returns[OF sized_size_inv[OF ms]] c0 mc
  obtain fin where r: "checkCapacity ?mid = Inr fin" by auto
  have "lru_capacity ?mid <s entry_size (lru_elems ?mid (lru_alloc lru))"
    using big by (simp add: mc me)
  from oversized_head_evicted[OF ms md r ml this] have fl: "lru_list fin = []" .
  note ff = checkCapacity_fields[OF r]
  have fi: "index_inv fin"
    by (rule checkCapacity_index_inv[OF addNew_pushed_index_inv[OF inv k] r])
  have ft: "lru_table fin = Map.empty"
    using index_inv_empty_table[OF fi fl] by (intro ext) simp
  from sized_size_inv[OF checkCapacity_sized[OF ms r]] fl have fs: "lru_size fin = 0"
    by (simp add: size_inv_def entrySizes_def)
  have old: "map (lru_elems ?mid) (rev (lru_list lru)) = map (lru_elems lru) (rev (lru_list lru))"
    using fresh by (intro map_cong[OF refl]) (auto simp: me)
  from enforced_emptied[OF checkCapacity_enforced[OF md r] fl]
  have "lru_purged fin = lru_purged ?mid @ cacheFullCalls (evictedEntries (length (lru_list ?mid)) ?mid)"
    by (simp add: evictTail_def Let_def)
  also have "evictedEntries (length (lru_list ?mid)) ?mid
             = map (lru_elems lru) (rev (lru_list lru)) @ [?new]"
    unfolding evictedEntries_def ml using old by (simp add: me)
  finally have fp: "lru_purged fin = lru_purged lru
             @ cacheFullCalls (map (lru_elems lru) (rev (lru_list lru)))
             @ cacheFullCalls [?new]"
    by (simp add: mp cacheFullCalls_append)
  from r fl ft fs ff mc mo fp show ?thesis by (simp add: addNew_def)
qed

lemma Keys_addNew_pushed:
  "index_inv lru \<Longrightarrow> Keys (addNew_pushed k v lru) = k # Keys lru"
proof -
  assume "index_inv lru"
  from index_inv_alloc_fresh[OF this]
  have "map (\<lambda>e. entry_key (((lru_elems lru)(lru_alloc lru := x)) e)) (lru_list lru)
        = map (\<lambda>e. entry_key (lru_elems lru e)) (lru_list lru)" for x
    by (intro map_cong[OF refl]) auto
  then show ?thesis
    by (simp add: Keys_def addNew_pushed_def Let_def list_PushFront_def fun_upd_same
        del: fun_upd_apply)
qed

section \<open>The calls of OnPurge\<close>

lemma safeOnPurge_notified: "safeOnPurge c why calls = calls @ notified why [c]"
  by (simp add: safeOnPurge_def notified_def)

lemma notified_append: "notified why (xs @ ys) = notified why xs @ notified why ys"
  by (simp add: notified_def)

lemma purgeAll_notified:
  "purgeAll elems l calls
   = calls @ notified PURGE_REASON_CLEAR_ALL (map (\<lambda>e. entry_value (elems e)) l)"
proof (induction l arbitrary: calls)
  case Nil
  then show ?case by (simp add: notified_def)
next
  case (Cons e l)
  have "notified PURGE_REASON_CLEAR_ALL (map (\<lambda>e. entry_value (elems e)) (e # l))
        = notified PURGE_REASON_CLEAR_ALL [entry_value (elems e)]
          @ notified PURGE_REASON_CLEAR_ALL (map (\<lambda>e. entry_value (elems e)) l)"
    by (simp add: notified_def)
  then show ?case by (simp add: Cons.IH safeOnPurge_notified)
qed

lemma cacheFullCalls_notified:
  "cacheFullCalls gone = notified PURGE_REASON_CACHEFULL (map entry_value gone)"
  by (simp add: cacheFullCalls_def notified_def filter_map comp_def)

text \<open>What the capacity loop adds to the record of calls.\<close>

lemma checkCapacity_notified:
  assumes "distinct (lru_list mid)" "checkCapacity mid = Inr fin"
  shows "\<exists>n \<le> length (lru_list mid).
           lru_list fin = take (length (lru_list mid) - n) (lru_list mid) \<and>
           lru_purged fin = lru_purged mid
             @ notified PURGE_REASON_CACHEFULL (map entry_value (evictedEntries n mid))"
proof -
  from checkCapacity_enforced[OF assms] obtain n where
    "n \<le> length (lru_list mid)" "fin = evictTail n mid"
    unfolding enforced_def by blast
  then show ?thesis
    by (intro exI[of _ n]) (simp add: evictTail_def Let_def cacheFullCalls_notified)
qed

section \<open>The scenarios of the repository's tests\<close>

text \<open>
  \<^verbatim>\<open>TestCapacityIsObeyed\<close>: capacity 3, four values of size 1; the fourth \<^verbatim>\<open>Set\<close> evicts
  the first key and leaves length, size and capacity at 3.
\<close>

lemma scenario_capacity_is_obeyed:
  "map_sum id (\<lambda>lru. (Stats lru, Keys lru))
     (andThen (SetCapacity 3 (NewLRUCacheInt 100)) (\<lambda>lru.
      andThen (Set_lru 1 (sizeOne 0) lru) (\<lambda>lru.
      andThen (Set_lru 2 (sizeOne 0) lru) (\<lambda>lru.
      andThen (Set_lru 3 (sizeOne 0) lru) (\<lambda>lru.
      Set_lru 4 (sizeOne 0) lru)))))
   = Inr ((3, 3, 3), [4, 3, 2])"
  by (simp add: andThen_def sizeOne_def op_eval_defs eval_defs checkCapacity.simps Stats_def)

text \<open>
  \<^verbatim>\<open>TestLRUIsEvicted\<close>: after \<^verbatim>\<open>Get\<close> of the keys 3, 2, 1 the key 3 is the least recently
  used; \<^verbatim>\<open>Set\<close> of key 0 evicts it, and \<^verbatim>\<open>Get(3)\<close> reports not found.
\<close>

lemma scenario_lru_is_evicted:
  "map_sum id (\<lambda>(r, lru). (r, Keys lru))
     (andThen (Set_lru 1 (sizeOne 1) (NewLRUCacheInt 3)) (\<lambda>lru.
      andThen (Set_lru 2 (sizeOne 2) lru) (\<lambda>lru.
      andThen (Set_lru 3 (sizeOne 3) lru) (\<lambda>lru.
      andThen (Get 3 lru) (\<lambda>(_, lru).
      andThen (Get 2 lru) (\<lambda>(_, lru).
      andThen (Get 1 lru) (\<lambda>(_, lru).
      andThen (Set_lru 0 (sizeOne 0) lru) (\<lambda>lru.
      Get 3 lru))))))))
   = Inr ((NilValue, False), [0, 1, 2])"
  by (simp add: andThen_def sizeOne_def op_eval_defs eval_defs checkCapacity.simps)

text \<open>
  \<^verbatim>\<open>TestDeleteOnPurge\<close>, \<^verbatim>\<open>TestUpdateOnPurge\<close> (the same value is set twice),
  \<^verbatim>\<open>TestCacheFullOnPurge\<close> and \<^verbatim>\<open>TestClearOnPurge\<close>: the reason of the one call made.
\<close>

lemma scenario_purge_reasons:
  "map_sum id (\<lambda>lru. lru_purged (snd (Delete 1 lru)))
     (Set_lru 1 purgeValue (NewLRUCacheInt 100))
   = Inr [(purgeValue, PURGE_REASON_DELETE)]"
  "map_sum id lru_purged
     (andThen (Set_lru 1 purgeValue (NewLRUCacheInt 100)) (Set_lru 1 purgeValue))
   = Inr [(purgeValue, PURGE_REASON_UPDATE)]"
  "map_sum id lru_purged
     (andThen (Set_lru 1 purgeValue (NewLRUCacheInt 1)) (Set_lru 2 purgeValue))
   = Inr [(purgeValue, PURGE_REASON_CACHEFULL)]"
  "map_sum id (\<lambda>lru. lru_purged (Clear lru))
     (Set_lru 1 purgeValue (NewLRUCacheInt 1))
   = Inr [(purgeValue, PURGE_REASON_CLEAR_ALL)]"
  by (simp_all add: andThen_def purgeValue_def op_eval_defs eval_defs checkCapacity.simps)

section \<open>C1: the capacity loop after every operation that can raise the size\<close>

text \<open>
  C1. \<^verbatim>\<open>addNew\<close> (a fresh insert), \<^verbatim>\<open>updateInplace\<close> (an update of an indexed key) and
  \<^verbatim>\<open>SetCapacity\<close> all end in \<^verbatim>\<open>checkCapacity\<close>. Whenever one of them completes, the state
  it leaves is the state it had on reaching the loop with some number \<open>n\<close> of entries
  evicted from the tail of the recency list, the rearmost first (so what is left is a
  front segment of the list, and an entry goes only when everything behind it has gone):
  each evicted entry's key is deleted from the table, its size is subtracted from the
  running total and its value, if it observes purges, has been notified with
  \<^verbatim>\<open>CACHEFULL\<close>. The loop stops at the first \<open>n\<close> for which the size is within capacity:
  after fewer evictions the size still exceeded the capacity, and at the end
  \<open>size \<le> capacity\<close>.
\<close>

theorem capacity_enforcement_evicts_from_tail:
  assumes "index_inv lru"
  shows "(addNew k v lru = Inr fin \<longrightarrow> enforced (addNew_pushed k v lru) fin) \<and>
         (updateInplace e v lru = Inr fin \<longrightarrow> enforced (updateInplace_written e v lru) fin) \<and>
         (SetCapacity c lru = Inr fin \<longrightarrow> enforced (lru\<lparr>lru_capacity := c\<rparr>) fin)"
proof (intro conjI impI)
  assume "addNew k v lru = Inr fin"
  then show "enforced (addNew_pushed k v lru) fin"
    unfolding addNew_def
    by (rule checkCapacity_enforced[OF addNew_pushed_distinct[OF assms]])
next
  assume "updateInplace e v lru = Inr fin"
  then show "enforced (updateInplace_written e v lru) fin"
    unfolding updateInplace_def
    by (rule checkCapacity_enforced[OF updateInplace_written_distinct[OF assms]])
next
  assume "SetCapacity c lru = Inr fin"
  moreover have "distinct (lru_list (lru\<lparr>lru_capacity := c\<rparr>))"
    using index_inv_distinct[OF assms] by simp
  ultimately show "enforced (lru\<lparr>lru_capacity := c\<rparr>) fin"
    unfolding SetCapacity_def by (intro checkCapacity_enforced)
qed

text \<open>
  On \<open>twoEntries\<close>: inserting key 12 evicts key 10 from the tail and notifies its value;
  updating key 10 with a value of size 2 moves it to the front and evicts key 11, whose
  value does not observe purges; lowering the capacity to 1 evicts key 10.
\<close>

theorem capacity_enforcement_evicts_from_tail_witness:
  "index_inv twoEntries \<and>
   addNew 12 NilValue twoEntries = Inr (evictTail 1 (addNew_pushed 12 NilValue twoEntries)) \<and>
   enforced (addNew_pushed 12 NilValue twoEntries)
            (evictTail 1 (addNew_pushed 12 NilValue twoEntries)) \<and>
   Keys (evictTail 1 (addNew_pushed 12 NilValue twoEntries)) = [12, 11] \<and>
   lru_purged (evictTail 1 (addNew_pushed 12 NilValue twoEntries))
     = [(Obj 100 None True, PURGE_REASON_CACHEFULL)] \<and>
   updateInplace 0 (Obj 102 (Some 2) False) twoEntries
     = Inr (evictTail 1 (updateInplace_written 0 (Obj 102 (Some 2) False) twoEntries)) \<and>
   enforced (updateInplace_written 0 (Obj 102 (Some 2) False) twoEntries)
            (evictTail 1 (updateInplace_written 0 (Obj 102 (Some 2) False) twoEntries)) \<and>
   Keys (evictTail 1 (updateInplace_written 0 (Obj 102 (Some 2) False) twoEntries)) = [10] \<and>
   SetCapacity 1 twoEntries = Inr (evictTail 1 (twoEntries\<lparr>lru_capacity := 1\<rparr>)) \<and>
   enforced (twoEntries\<lparr>lru_capacity := 1\<rparr>) (evictTail 1 (twoEntries\<lparr>lru_capacity := 1\<rparr>)) \<and>
   Keys (evictTail 1 (twoEntries\<lparr>lru_capacity := 1\<rparr>)) = [11]"
proof -
  have a: "addNew 12 NilValue twoEntries
             = Inr (evictTail 1 (addNew_pushed 12 NilValue twoEntries))"
    by (simp add: twoEntries_def eval_defs spec_defs checkCapacity.simps)
  have u: "updateInplace 0 (Obj 102 (Some 2) False) twoEntries
             = Inr (evictTail 1 (updateInplace_written 0 (Obj 102 (Some 2) False) twoEntries))"
    by (simp add: twoEntries_def eval_defs spec_defs checkCapacity.simps)
  have c: "SetCapacity 1 twoEntries = Inr (evictTail 1 (twoEntries\<lparr>lru_capacity := 1\<rparr>))"
    by (simp add: twoEntries_def eval_defs spec_defs checkCapacity.simps)
  have ka: "Keys (evictTail 1 (addNew_pushed 12 NilValue twoEntries)) = [12, 11]"
    by (simp add: twoEntries_def eval_defs spec_defs Keys_def)
  have pa: "lru_purged (evictTail 1 (addNew_pushed 12 NilValue twoEntries))
              = [(Obj 100 None True, PURGE_REASON_CACHEFULL)]"
    by (simp add: twoEntries_def eval_defs spec_defs)
  have ku: "Keys (evictTail 1 (updateInplace_written 0 (Obj 102 (Some 2) False) twoEntries))
              = [10]"
    by (simp add: twoEntries_def eval_defs spec_defs Keys_def)
  have kc: "Keys (evictTail 1 (twoEntries\<lparr>lru_capacity := 1\<rparr>)) = [11]"
    by (simp add: twoEntries_def eval_defs spec_defs Keys_def)
  note t = capacity_enforcement_evicts_from_tail[OF twoEntries_index_inv]
  from t[of 12 NilValue "evictTail 1 (addNew_pushed 12 NilValue twoEntries)"] a
  have ea: "enforced (addNew_pushed 12 NilValue twoEntries)
              (evictTail 1 (addNew_pushed 12 NilValue twoEntries))"
    by blast
  from t[of _ "Obj 102 (Some 2) False"
           "evictTail 1 (updateInplace_written 0 (Obj 102 (Some 2) False) twoEntries)" 0] u
  have eu: "enforced (updateInplace_written 0 (Obj 102 (Some 2) False) twoEntries)
              (evictTail 1 (updateInplace_written 0 (Obj 102 (Some 2) False) twoEntries))"
    by blast
  from t[of _ _ "evictTail 1 (twoEntries\<lparr>lru_capacity := 1\<rparr>)" _ 1] c
  have ec: "enforced (twoEntries\<lparr>lru_capacity := 1\<rparr>)
              (evictTail 1 (twoEntries\<lparr>lru_capacity := 1\<rparr>))"
    by blast
  from twoEntries_index_inv a ea ka pa u eu ku c ec kc show ?thesis by blast
qed

section \<open>C2: the running total and the capacity, between operations\<close>

text \<open>
  C2 as stated fails in its second half, \<open>size \<le> capacity\<close>: an engine built with a
  negative capacity is at rest with size 0 above its capacity; with a value of negative
  size in the cache, or a running total that has wrapped around, a \<^verbatim>\<open>Delete\<close> (which does
  not run the capacity loop) leaves the size above the capacity.
\<close>

theorem size_within_capacity_counterexample:
  "lru_capacity (NewLRUCacheInt (- 1)) <s lru_size (NewLRUCacheInt (- 1)) \<and>
   Set_lru 1 (Obj 1 (Some (- 5)) False) (NewLRUCacheInt 0)
     = Inr (addNew_pushed 1 (Obj 1 (Some (- 5)) False) (NewLRUCacheInt 0)) \<and>
   Set_lru 2 (Obj 2 (Some 5) False)
       (addNew_pushed 1 (Obj 1 (Some (- 5)) False) (NewLRUCacheInt 0))
     = Inr negativeSizes \<and>
   lru_capacity (snd (Delete 1 negativeSizes)) <s lru_size (snd (Delete 1 negativeSizes)) \<and>
   Set_lru 1 (Obj 1 (Some 4611686018427387904) False) (NewLRUCacheInt 4611686018427387904)
     = Inr (addNew_pushed 1 (Obj 1 (Some 4611686018427387904) False)
              (NewLRUCacheInt 4611686018427387904)) \<and>
   Set_lru 2 (Obj 2 (Some 9223372036854775807) False)
       (addNew_pushed 1 (Obj 1 (Some 4611686018427387904) False)
          (NewLRUCacheInt 4611686018427387904))
     = Inr wrappedTotal \<and>
   lru_capacity (snd (Delete 1 wrappedTotal)) <s lru_size (snd (Delete 1 wrappedTotal))"
  by (simp add: negativeSizes_def wrappedTotal_def op_eval_defs eval_defs checkCapacity.simps)

text \<open>
  C2, amended. In every state reached through completed public operations, whatever the
  capacities and the values, the running total is the sum of the entries' recorded sizes
  (in \<^verbatim>\<open>int64\<close> arithmetic). It is at most the capacity in every such state that is reached
  from a constructor call with a capacity that is not negative, with \<^verbatim>\<open>SetCapacity\<close> given
  capacities that are not negative, and with every value stored (by \<^verbatim>\<open>Set\<close>, by
  \<^verbatim>\<open>SetIfAbsent\<close> on an absent key or by the miss-loader) having a size that is not negative
  and leads to a running total that does not overflow \<^verbatim>\<open>int64\<close>.
\<close>

theorem reachable_size_invariant:
  "(atRest lru \<longrightarrow> lru_size lru = sum_list (entrySizes lru)) \<and>
   (reachable lru \<longrightarrow> atRest lru \<and> lru_size lru \<le>s lru_capacity lru)"
  using atRest_consistent[of lru] reachable_atRest[of lru] reachable_good[of lru]
  by (auto simp: consistent_def size_inv_def good_def)

lemma twoEntries_built:
  "Set_lru 10 (Obj 100 None True) (NewLRUCacheInt 2)
     = Inr (addNew_pushed 10 (Obj 100 None True) (NewLRUCacheInt 2))"
  "Set_lru 11 (Obj 101 (Some 1) False)
       (addNew_pushed 10 (Obj 100 None True) (NewLRUCacheInt 2))
     = Inr twoEntries"
  "admissible 10 (Obj 100 None True) (NewLRUCacheInt 2)"
  "admissible 11 (Obj 101 (Some 1) False)
     (addNew_pushed 10 (Obj 100 None True) (NewLRUCacheInt 2))"
  by (simp_all add: twoEntries_def admissible_def replacedSize_def op_eval_defs eval_defs
      checkCapacity.simps)

lemma twoEntries_reachable: "reachable twoEntries"
proof -
  have "reachable (NewLRUCacheInt 2)" by (rule reach_New) (simp add: word_sle_eq)
  from reach_Set[OF this twoEntries_built(3) twoEntries_built(1)]
  have "reachable (addNew_pushed 10 (Obj 100 None True) (NewLRUCacheInt 2))" .
  from reach_Set[OF this twoEntries_built(4) twoEntries_built(2)] show ?thesis .
qed

lemma negativeSizes_atRest: "atRest (snd (Delete 1 negativeSizes))"
proof -
  have a: "Set_lru 1 (Obj 1 (Some (- 5)) False) (NewLRUCacheInt 0)
      = Inr (addNew_pushed 1 (Obj 1 (Some (- 5)) False) (NewLRUCacheInt 0))"
    and b: "Set_lru 2 (Obj 2 (Some 5) False)
        (addNew_pushed 1 (Obj 1 (Some (- 5)) False) (NewLRUCacheInt 0))
      = Inr negativeSizes"
    by (simp_all add: negativeSizes_def op_eval_defs eval_defs checkCapacity.simps)
  from rest_Set[OF rest_Set[OF rest_New a] b] show ?thesis by (rule rest_Delete)
qed

text \<open>
  \<open>twoEntries\<close> is \<^verbatim>\<open>NewLRUCacheInt(2)\<close> after two calls of \<^verbatim>\<open>Set\<close>; deleting key 11 from it
  leaves size 1, the size of the entry left, under capacity 2. An engine built with the
  capacity -1, and the engine of capacity 0 left with one entry of size 5 by the deletion
  above, are above their capacity, yet their running total is the sum of their entries'
  sizes.
\<close>

theorem reachable_size_invariant_witness:
  "reachable (snd (Delete 11 twoEntries)) \<and>
   atRest (snd (Delete 11 twoEntries)) \<and>
   lru_size (snd (Delete 11 twoEntries)) = sum_list (entrySizes (snd (Delete 11 twoEntries))) \<and>
   lru_size (snd (Delete 11 twoEntries)) \<le>s lru_capacity (snd (Delete 11 twoEntries)) \<and>
   lru_size (snd (Delete 11 twoEntries)) = 1 \<and>
   entrySizes (snd (Delete 11 twoEntries)) = [1] \<and>
   lru_capacity (snd (Delete 11 twoEntries)) = 2 \<and>
   atRest (NewLRUCacheInt (- 1)) \<and>
   lru_size (NewLRUCacheInt (- 1)) = sum_list (entrySizes (NewLRUCacheInt (- 1))) \<and>
   atRest (snd (Delete 1 negativeSizes)) \<and>
   lru_size (snd (Delete 1 negativeSizes)) = sum_list (entrySizes (snd (Delete 1 negativeSizes))) \<and>
   lru_size (snd (Delete 1 negativeSizes)) = 5 \<and>
   entrySizes (snd (Delete 1 negativeSizes)) = [5]"
proof -
  have r: "reachable (snd (Delete 11 twoEntries))"
    by (rule reach_Delete[OF twoEntries_reachable])
  have e: "lru_size (snd (Delete 11 twoEntries)) = 1"
    "entrySizes (snd (Delete 11 twoEntries)) = [1]"
    "lru_capacity (snd (Delete 11 twoEntries)) = 2"
    by (simp_all add: twoEntries_def Delete_def entrySizes_def eval_defs)
  have n: "lru_size (snd (Delete 1 negativeSizes)) = 5"
    "entrySizes (snd (Delete 1 negativeSizes)) = [5]"
    by (simp_all add: negativeSizes_def op_eval_defs entrySizes_def eval_defs)
  have m: "atRest (NewLRUCacheInt (- 1))" by (rule rest_New)
  from reachable_size_invariant[of "snd (Delete 11 twoEntries)"] r
  have "atRest (snd (Delete 11 twoEntries))"
    and "lru_size (snd (Delete 11 twoEntries)) = sum_list (entrySizes (snd (Delete 11 twoEntries)))"
    and "lru_size (snd (Delete 11 twoEntries)) \<le>s lru_capacity (snd (Delete 11 twoEntries))"
    by blast+
  moreover from reachable_size_invariant[of "NewLRUCacheInt (- 1)"] m
  have "lru_size (NewLRUCacheInt (- 1)) = sum_list (entrySizes (NewLRUCacheInt (- 1)))"
    by blast
  moreover from reachable_size_invariant[of "snd (Delete 1 negativeSizes)"] negativeSizes_atRest
  have "lru_size (snd (Delete 1 negativeSizes))
      = sum_list (entrySizes (snd (Delete 1 negativeSizes)))"
    by blast
  ultimately show ?thesis using r e n m negativeSizes_atRest by blast
qed

section \<open>C3: one purge notification per removal, with the reason of its cause\<close>

text \<open>
  C3. On an engine with a consistent index, every public operation adds to the record of
  \<^verbatim>\<open>OnPurge\<close> calls exactly this:
  \<^item> \<^verbatim>\<open>Delete\<close> of an indexed key removes its element and notifies its value with
    \<^verbatim>\<open>DELETE\<close>; of a key that is not indexed, nothing;
  \<^item> \<^verbatim>\<open>Clear\<close> empties the list and notifies every held value with \<^verbatim>\<open>CLEAR_ALL\<close>, from
    the front;
  \<^item> \<^verbatim>\<open>Set\<close> on an indexed key notifies the value held before with \<^verbatim>\<open>UPDATE\<close>, and then
    the values of the \<open>n\<close> entries the capacity loop removes with \<^verbatim>\<open>CACHEFULL\<close>; the new
    value gets no \<^verbatim>\<open>UPDATE\<close> call (unless it is the very value held before);
  \<^item> \<^verbatim>\<open>Set\<close> and \<^verbatim>\<open>SetIfAbsent\<close> on a key that is not indexed, and \<^verbatim>\<open>SetCapacity\<close>, notify
    the values of the \<open>n\<close> entries the capacity loop removes with \<^verbatim>\<open>CACHEFULL\<close>;
  \<^item> \<^verbatim>\<open>SetIfAbsent\<close> and \<^verbatim>\<open>Get\<close> on an indexed key notify nobody.
  In each case \<open>notified\<close> gives one call to each value that observes purges and none to
  the others, and the elements of the list are distinct, so every removal is notified
  exactly once.
\<close>

theorem purge_notification_law:
  assumes inv: "index_inv lru"
  shows "(lru_table lru k = None \<longrightarrow> Delete k lru = (False, lru)) \<and>
         (lru_table lru k = Some e \<longrightarrow>
            fst (Delete k lru) \<and>
            lru_list (snd (Delete k lru)) = remove1 e (lru_list lru) \<and>
            lru_purged (snd (Delete k lru))
              = lru_purged lru
                @ notified PURGE_REASON_DELETE [entry_value (lru_elems lru e)]) \<and>
         lru_list (Clear lru) = [] \<and>
         lru_purged (Clear lru)
           = lru_purged lru @ notified PURGE_REASON_CLEAR_ALL (Values lru) \<and>
         (lru_table lru k = Some e \<and> Set_lru k v lru = Inr fin \<longrightarrow>
            (\<exists>n \<le> length (lru_list lru).
               lru_list fin = take (length (lru_list lru) - n) (e # remove1 e (lru_list lru)) \<and>
               lru_purged fin
                 = lru_purged lru
                   @ notified PURGE_REASON_UPDATE [entry_value (lru_elems lru e)]
                   @ notified PURGE_REASON_CACHEFULL
                       (map entry_value (evictedEntries n (updateInplace_written e v lru)))) \<and>
            (entry_value (lru_elems lru e) \<noteq> v \<longrightarrow>
               (v, PURGE_REASON_UPDATE)
                 \<notin> set (drop (length (lru_purged lru)) (lru_purged fin)))) \<and>
         (lru_table lru k = None \<and> Set_lru k v lru = Inr fin \<longrightarrow>
            SetIfAbsent k v lru = Inr fin \<and>
            (\<exists>n \<le> Suc (length (lru_list lru)).
               lru_list fin = take (Suc (length (lru_list lru)) - n) (lru_alloc lru # lru_list lru) \<and>
               lru_purged fin
                 = lru_purged lru
                   @ notified PURGE_REASON_CACHEFULL
                       (map entry_value (evictedEntries n (addNew_pushed k v lru))))) \<and>
         (SetCapacity c lru = Inr fin \<longrightarrow>
            (\<exists>n \<le> length (lru_list lru).
               lru_list fin = take (length (lru_list lru) - n) (lru_list lru) \<and>
               lru_purged fin
                 = lru_purged lru
                   @ notified PURGE_REASON_CACHEFULL (map entry_value (evictedEntries n lru)))) \<and>
         (lru_table lru k = Some e \<and> SetIfAbsent k v lru = Inr fin \<longrightarrow>
            lru_purged fin = lru_purged lru) \<and>
         (lru_table lru k = Some e \<and> Get k lru = Inr (r, fin) \<longrightarrow>
            lru_purged fin = lru_purged lru)"
proof (intro conjI impI)
  show "Delete k lru = (False, lru)" if "lru_table lru k = None"
    using that by (simp add: Delete_def)
  show "lru_list (Clear lru) = []" by (simp add: Clear_def)
  show "lru_purged (Clear lru) = lru_purged lru @ notified PURGE_REASON_CLEAR_ALL (Values lru)"
    by (simp add: Clear_def purgeAll_notified Values_def)
  {
    assume k: "lru_table lru k = Some e"
    show "fst (Delete k lru)" using k by (simp add: Delete_def)
    show "lru_list (snd (Delete k lru)) = remove1 e (lru_list lru)"
      using k by (simp add: Delete_def list_Remove_def)
    show "lru_purged (snd (Delete k lru))
          = lru_purged lru @ notified PURGE_REASON_DELETE [entry_value (lru_elems lru e)]"
      using k by (simp add: Delete_def safeOnPurge_notified)
  }
  {
    assume a: "lru_table lru k = Some e \<and> Set_lru k v lru = Inr fin"
    let ?mid = "updateInplace_written e v lru"
    from a have r: "checkCapacity ?mid = Inr fin"
      by (auto simp: Set_lru_def set_lru_def updateInplace_def)
    from a index_inv_tableD[OF inv] have e: "e \<in> set (lru_list lru)" by blast
    note ml = updateInplace_written_list[OF e, of v]
    have len: "length (lru_list ?mid) = length (lru_list lru)"
      using e unfolding ml by (simp add: length_remove1) (cases "lru_list lru", auto)
    have mp: "lru_purged ?mid
        = lru_purged lru @ notified PURGE_REASON_UPDATE [entry_value (lru_elems lru e)]"
      by (simp add: updateInplace_written_def Let_def moveToFront_def safeOnPurge_notified)
    from checkCapacity_notified[OF updateInplace_written_distinct[OF inv] r]
    obtain n where n0: "n \<le> length (lru_list ?mid)"
      and l0: "lru_list fin = take (length (lru_list ?mid) - n) (lru_list ?mid)"
      and p0: "lru_purged fin = lru_purged ?mid
                @ notified PURGE_REASON_CACHEFULL (map entry_value (evictedEntries n ?mid))"
      by blast
    have len2: "length (e # remove1 e (lru_list lru)) = length (lru_list lru)"
      using len by (simp only: ml)
    from n0 have n: "n \<le> length (lru_list lru)" by (simp only: len)
    from l0 have l: "lru_list fin
        = take (length (lru_list lru) - n) (e # remove1 e (lru_list lru))"
      by (simp only: ml len2)
    from p0 have p: "lru_purged fin = lru_purged lru
                @ notified PURGE_REASON_UPDATE [entry_value (lru_elems lru e)]
                @ notified PURGE_REASON_CACHEFULL (map entry_value (evictedEntries n ?mid))"
      by (simp only: mp append_assoc)
    from n l p show "\<exists>n \<le> length (lru_list lru).
        lru_list fin = take (length (lru_list lru) - n) (e # remove1 e (lru_list lru)) \<and>
        lru_purged fin = lru_purged lru
          @ notified PURGE_REASON_UPDATE [entry_value (lru_elems lru e)]
          @ notified PURGE_REASON_CACHEFULL (map entry_value (evictedEntries n ?mid))"
      by blast
    show "(v, PURGE_REASON_UPDATE) \<notin> set (drop (length (lru_purged lru)) (lru_purged fin))"
      if "entry_value (lru_elems lru e) \<noteq> v"
      using that unfolding p by (auto simp: notified_def)
  }
  {
    assume a: "lru_table lru k = None \<and> Set_lru k v lru = Inr fin"
    let ?mid = "addNew_pushed k v lru"
    from a have r: "checkCapacity ?mid = Inr fin"
      by (auto simp: Set_lru_def set_lru_def addNew_def)
    from a show "SetIfAbsent k v lru = Inr fin"
      by (auto simp: SetIfAbsent_def Set_lru_def set_lru_def)
    have ml: "lru_list ?mid = lru_alloc lru # lru_list lru"
      and mp: "lru_purged ?mid = lru_purged lru"
      by (simp_all add: addNew_pushed_def Let_def list_PushFront_def)
    from checkCapacity_notified[OF addNew_pushed_distinct[OF inv] r]
    show "\<exists>n \<le> Suc (length (lru_list lru)).
        lru_list fin = take (Suc (length (lru_list lru)) - n) (lru_alloc lru # lru_list lru) \<and>
        lru_purged fin = lru_purged lru
          @ notified PURGE_REASON_CACHEFULL (map entry_value (evictedEntries n ?mid))"
      unfolding ml mp by simp
  }
  {
    assume "SetCapacity c lru = Inr fin"
    then have r: "checkCapacity (lru\<lparr>lru_capacity := c\<rparr>) = Inr fin"
      by (simp add: SetCapacity_def)
    have d: "distinct (lru_list (lru\<lparr>lru_capacity := c\<rparr>))"
      using index_inv_distinct[OF inv] by simp
    have "evictedEntries n (lru\<lparr>lru_capacity := c\<rparr>) = evictedEntries n lru" for n
      by (simp add: evictedEntries_def)
    with checkCapacity_notified[OF d r]
    show "\<exists>n \<le> length (lru_list lru).
        lru_list fin = take (length (lru_list lru) - n) (lru_list lru) \<and>
        lru_purged fin = lru_purged lru
          @ notified PURGE_REASON_CACHEFULL (map entry_value (evictedEntries n lru))"
      by simp
  }
  show "lru_purged fin = lru_purged lru"
    if "lru_table lru k = Some e \<and> SetIfAbsent k v lru = Inr fin"
    using that by (auto simp: SetIfAbsent_def moveToFront_def)
  show "lru_purged fin = lru_purged lru"
    if "lru_table lru k = Some e \<and> Get k lru = Inr (r, fin)"
    using that by (auto simp: Get_def Let_def moveToFront_def)
qed

text \<open>
  On \<open>twoEntries\<close>, where only the value of key 10 observes purges: deleting key 10
  notifies it with \<^verbatim>\<open>DELETE\<close>, deleting key 11 notifies nobody; \<^verbatim>\<open>Clear\<close> notifies the value
  of key 10 with \<^verbatim>\<open>CLEAR_ALL\<close>; \<^verbatim>\<open>Set(10, v)\<close> with an observing value of size 5 notifies
  the old value with \<^verbatim>\<open>UPDATE\<close> and, after the eviction of key 11, the new one with
  \<^verbatim>\<open>CACHEFULL\<close>; inserting key 12 evicts key 10 with \<^verbatim>\<open>CACHEFULL\<close>.
\<close>

theorem purge_notification_law_witness:
  "index_inv twoEntries \<and>
   lru_table twoEntries 10 = Some 0 \<and> lru_table twoEntries 11 = Some 1 \<and>
   lru_table twoEntries 12 = None \<and>
   lru_purged (snd (Delete 10 twoEntries)) = [(Obj 100 None True, PURGE_REASON_DELETE)] \<and>
   lru_purged (snd (Delete 11 twoEntries)) = [] \<and>
   Delete 12 twoEntries = (False, twoEntries) \<and>
   lru_purged (Clear twoEntries) = [(Obj 100 None True, PURGE_REASON_CLEAR_ALL)] \<and>
   Set_lru 10 (Obj 105 (Some 5) True) twoEntries
     = Inr (evictTail 2 (updateInplace_written 0 (Obj 105 (Some 5) True) twoEntries)) \<and>
   lru_purged (evictTail 2 (updateInplace_written 0 (Obj 105 (Some 5) True) twoEntries))
     = [(Obj 100 None True, PURGE_REASON_UPDATE),
        (Obj 105 (Some 5) True, PURGE_REASON_CACHEFULL)] \<and>
   (Obj 105 (Some 5) True, PURGE_REASON_UPDATE)
     \<notin> set (drop (length (lru_purged twoEntries))
         (lru_purged (evictTail 2 (updateInplace_written 0 (Obj 105 (Some 5) True) twoEntries)))) \<and>
   Set_lru 12 (Obj 106 None True) twoEntries
     = Inr (evictTail 1 (addNew_pushed 12 (Obj 106 None True) twoEntries)) \<and>
   SetIfAbsent 12 (Obj 106 None True) twoEntries
     = Inr (evictTail 1 (addNew_pushed 12 (Obj 106 None True) twoEntries)) \<and>
   lru_purged (evictTail 1 (addNew_pushed 12 (Obj 106 None True) twoEntries))
     = [(Obj 100 None True, PURGE_REASON_CACHEFULL)]"
proof -
  let ?u = "Obj 105 (Some 5) True"
  let ?fu = "evictTail 2 (updateInplace_written 0 ?u twoEntries)"
  let ?n = "Obj 106 None True"
  let ?fn = "evictTail 1 (addNew_pushed 12 ?n twoEntries)"
  have t: "lru_table twoEntries 10 = Some 0" "lru_table twoEntries 11 = Some 1"
    "lru_table twoEntries 12 = None"
    by (simp_all add: twoEntries_def)
  have v: "entry_value (lru_elems twoEntries 0) = Obj 100 None True"
    "entry_value (lru_elems twoEntries 1) = Obj 101 (Some 1) False"
    "Values twoEntries = [Obj 101 (Some 1) False, Obj 100 None True]"
    "lru_purged twoEntries = []"
    by (simp_all add: twoEntries_def Values_def)
  have n: "notified PURGE_REASON_DELETE [Obj 100 None True]
             = [(Obj 100 None True, PURGE_REASON_DELETE)]"
    "notified PURGE_REASON_DELETE [Obj 101 (Some 1) False] = []"
    "notified PURGE_REASON_CLEAR_ALL [Obj 101 (Some 1) False, Obj 100 None True]
       = [(Obj 100 None True, PURGE_REASON_CLEAR_ALL)]"
    by (simp_all add: notified_def onPurger_def)
  have su: "Set_lru 10 ?u twoEntries = Inr ?fu"
    by (simp add: twoEntries_def op_eval_defs eval_defs spec_defs checkCapacity.simps)
  have pu: "lru_purged ?fu
      = [(Obj 100 None True, PURGE_REASON_UPDATE), (?u, PURGE_REASON_CACHEFULL)]"
    by (simp add: twoEntries_def eval_defs spec_defs)
  have sn: "Set_lru 12 ?n twoEntries = Inr ?fn"
    by (simp add: twoEntries_def op_eval_defs eval_defs spec_defs checkCapacity.simps)
  have pn: "lru_purged ?fn = [(Obj 100 None True, PURGE_REASON_CACHEFULL)]"
    by (simp add: twoEntries_def eval_defs spec_defs)
  note th = purge_notification_law[OF twoEntries_index_inv]
  from th[of 10 0] t(1) v n
  have d10: "lru_purged (snd (Delete 10 twoEntries)) = [(Obj 100 None True, PURGE_REASON_DELETE)]"
    by simp
  from th[of 11 1] t(2) v n
  have d11: "lru_purged (snd (Delete 11 twoEntries)) = []" by simp
  from th[of 12] t(3) have d12: "Delete 12 twoEntries = (False, twoEntries)" by blast
  from th[of 10 0] v n
  have c: "lru_purged (Clear twoEntries) = [(Obj 100 None True, PURGE_REASON_CLEAR_ALL)]"
    by simp
  from th[of 10 0 ?u ?fu] t(1) su v
  have nu: "(?u, PURGE_REASON_UPDATE)
      \<notin> set (drop (length (lru_purged twoEntries)) (lru_purged ?fu))"
    by simp
  from th[of 12 _ ?n ?fn] t(3) sn have si: "SetIfAbsent 12 ?n twoEntries = Inr ?fn" by blast
  from twoEntries_index_inv t d10 d11 d12 c su pu nu sn si pn show ?thesis by blast
qed

section \<open>C4: capacity 0\<close>

text \<open>
  C4 as stated fails twice. With capacity 0, a value whose size capability reports 0 is
  inserted and stays: the loop runs only while the size exceeds the capacity. With a
  negative capacity, the first \<^verbatim>\<open>Set\<close> evicts the new entry and then goes round the loop
  once more on the empty list, where \<^verbatim>\<open>Back()\<close> is \<^verbatim>\<open>nil\<close>: the call panics.
\<close>

theorem zero_capacity_insert_counterexample:
  "Set_lru 1 (Obj 1 (Some 0) True) (NewLRUCacheInt 0) = Inr zeroCapacity \<and>
   Keys zeroCapacity = [1] \<and>
   lru_purged zeroCapacity = [] \<and>
   Set_lru 1 NilValue (NewLRUCacheInt (- 1)) = Inl NilPointerDereference"
  by (simp add: zeroCapacity_def op_eval_defs eval_defs checkCapacity.simps)

text \<open>
  C4, amended. An engine at rest whose capacity is 0 accepts every insertion of an absent
  key (by \<^verbatim>\<open>Set\<close>, \<^verbatim>\<open>SetIfAbsent\<close> or the miss-loader, which all run \<^verbatim>\<open>addNew\<close>): the entry
  is pushed and indexed, and then the capacity loop runs, with no special case. When the
  size of the value is positive (the default size 1 included) the loop evicts every
  entry, from the tail, the new entry last, each with reason \<^verbatim>\<open>CACHEFULL\<close>, and the call
  leaves the cache empty. When the size capability reports 0 the entry stays. (The states
  at rest are those of C2: sizes are not negative and do not overflow.)
\<close>

theorem zero_capacity_insert:
  assumes re: "reachable lru" and c: "lru_capacity lru = 0"
    and k: "lru_table lru k = None" and a: "admissible k v lru"
  shows "lru_table (addNew_pushed k v lru) k = Some (lru_alloc lru) \<and>
         Set_lru k v lru = addNew k v lru \<and> SetIfAbsent k v lru = addNew k v lru \<and>
         (lru_onMiss lru = Some onMiss \<and> onMiss k = (v, True) \<longrightarrow>
            Get k lru = map_sum id (Pair (v, True)) (addNew k v lru)) \<and>
         (0 <s getSize v \<longrightarrow>
            (\<exists>fin. addNew k v lru = Inr fin \<and> Keys fin = [] \<and> lru_table fin = Map.empty \<and>
               lru_size fin = 0 \<and> lru_capacity fin = 0 \<and>
               lru_purged fin = lru_purged lru
                 @ cacheFullCalls (map (lru_elems lru) (rev (lru_list lru)))
                 @ cacheFullCalls [\<lparr>entry_key = k, entry_value = v, entry_size = getSize v\<rparr>])) \<and>
         (getSize v = 0 \<longrightarrow>
            addNew k v lru = Inr (addNew_pushed k v lru) \<and>
            Keys (addNew_pushed k v lru) = k # Keys lru \<and>
            lru_purged (addNew_pushed k v lru) = lru_purged lru)"
proof (intro conjI impI)
  from reachable_good[OF re] have inv: "index_inv lru" and s: "sized lru"
    and w: "lru_size lru \<le>s lru_capacity lru"
    by (simp_all add: good_def)
  show "lru_table (addNew_pushed k v lru) k = Some (lru_alloc lru)"
    by (simp add: addNew_pushed_def Let_def)
  show "Set_lru k v lru = addNew k v lru" using k by (simp add: Set_lru_def set_lru_def)
  show "SetIfAbsent k v lru = addNew k v lru" using k by (simp add: SetIfAbsent_def)
  show "Get k lru = map_sum id (Pair (v, True)) (addNew k v lru)"
    if "lru_onMiss lru = Some onMiss \<and> onMiss k = (v, True)"
    using that k by (simp add: Get_def set_lru_def split: sum.splits)
  {
    assume "0 <s getSize v"
    with oversized_insert[OF inv s _ k a] c
    obtain fin where "addNew k v lru = Inr fin" "lru_list fin = []" "lru_table fin = Map.empty"
      "lru_size fin = 0" "lru_capacity fin = 0"
      "lru_purged fin = lru_purged lru
                 @ cacheFullCalls (map (lru_elems lru) (rev (lru_list lru)))
                 @ cacheFullCalls [\<lparr>entry_key = k, entry_value = v, entry_size = getSize v\<rparr>]"
      by auto
    then show "\<exists>fin. addNew k v lru = Inr fin \<and> Keys fin = [] \<and> lru_table fin = Map.empty \<and>
               lru_size fin = 0 \<and> lru_capacity fin = 0 \<and>
               lru_purged fin = lru_purged lru
                 @ cacheFullCalls (map (lru_elems lru) (rev (lru_list lru)))
                 @ cacheFullCalls [\<lparr>entry_key = k, entry_value = v, entry_size = getSize v\<rparr>]"
      by (simp add: Keys_def)
  }
  {
    assume z: "getSize v = 0"
    with w c have "\<not> lru_capacity (addNew_pushed k v lru) <s lru_size (addNew_pushed k v lru)"
      by (simp add: addNew_pushed_def Let_def signed.not_less)
    then show "addNew k v lru = Inr (addNew_pushed k v lru)"
      by (simp add: addNew_def checkCapacity.simps)
    show "Keys (addNew_pushed k v lru) = k # Keys lru" by (rule Keys_addNew_pushed[OF inv])
    show "lru_purged (addNew_pushed k v lru) = lru_purged lru"
      by (simp add: addNew_pushed_def Let_def)
  }
qed

lemma zeroCapacity_reachable: "reachable zeroCapacity"
proof -
  have "reachable (NewLRUCacheInt 0)" by (rule reach_New) (simp add: word_sle_eq)
  moreover have "admissible 1 (Obj 1 (Some 0) True) (NewLRUCacheInt 0)"
    by (simp add: admissible_def replacedSize_def NewLRUCacheInt_def eval_defs)
  moreover have "Set_lru 1 (Obj 1 (Some 0) True) (NewLRUCacheInt 0) = Inr zeroCapacity"
    by (simp add: zeroCapacity_def op_eval_defs eval_defs checkCapacity.simps)
  ultimately show ?thesis by (rule reach_Set)
qed

text \<open>
  On \<open>zeroCapacity\<close>, which holds key 1 with a value of size 0: inserting key 2 with a plain
  value (size 1) evicts key 1 and then key 2, neither of which stays; the value of key 1
  observes purges and is notified.
\<close>

theorem zero_capacity_insert_witness:
  "reachable zeroCapacity \<and> lru_capacity zeroCapacity = 0 \<and>
   lru_table zeroCapacity 2 = None \<and> admissible 2 NilValue zeroCapacity \<and>
   0 <s getSize NilValue \<and>
   (\<exists>fin. Set_lru 2 NilValue zeroCapacity = Inr fin \<and> Keys fin = [] \<and>
      lru_purged fin = [(Obj 1 (Some 0) True, PURGE_REASON_CACHEFULL)]) \<and>
   reachable (NewLRUCacheInt 0) \<and> lru_capacity (NewLRUCacheInt 0) = 0 \<and>
   lru_table (NewLRUCacheInt 0) 1 = None \<and>
   admissible 1 (Obj 1 (Some 0) True) (NewLRUCacheInt 0) \<and>
   getSize (Obj 1 (Some 0) True) = 0 \<and>
   Set_lru 1 (Obj 1 (Some 0) True) (NewLRUCacheInt 0) = Inr zeroCapacity \<and>
   Keys zeroCapacity = [1]"
proof -
  have c: "lru_capacity zeroCapacity = 0" and t: "lru_table zeroCapacity 2 = None"
    and a: "admissible 2 NilValue zeroCapacity" and p: "0 <s getSize NilValue"
    by (simp_all add: zeroCapacity_def admissible_def replacedSize_def NewLRUCacheInt_def
        eval_defs)
  have pl: "lru_purged zeroCapacity
      @ cacheFullCalls (map (lru_elems zeroCapacity) (rev (lru_list zeroCapacity)))
      @ cacheFullCalls [\<lparr>entry_key = 2, entry_value = NilValue, entry_size = getSize NilValue\<rparr>]
      = [(Obj 1 (Some 0) True, PURGE_REASON_CACHEFULL)]"
    by (simp add: zeroCapacity_def NewLRUCacheInt_def eval_defs spec_defs)
  note th = zero_capacity_insert[OF zeroCapacity_reachable c t a]
  from th p pl
  have e: "\<exists>fin. Set_lru 2 NilValue zeroCapacity = Inr fin \<and> Keys fin = [] \<and>
      lru_purged fin = [(Obj 1 (Some 0) True, PURGE_REASON_CACHEFULL)]"
    by auto
  have r0: "reachable (NewLRUCacheInt 0)" by (rule reach_New) (simp add: word_sle_eq)
  have c0: "lru_capacity (NewLRUCacheInt 0) = 0" and t0: "lru_table (NewLRUCacheInt 0) 1 = None"
    and a0: "admissible 1 (Obj 1 (Some 0) True) (NewLRUCacheInt 0)"
    and z: "getSize (Obj 1 (Some 0) True) = 0"
    by (simp_all add: admissible_def replacedSize_def NewLRUCacheInt_def eval_defs)
  have k: "Keys zeroCapacity = [1]"
    by (simp add: zeroCapacity_def op_eval_defs eval_defs)
  from zero_capacity_insert[OF r0 c0 t0 a0] z
  have "Set_lru 1 (Obj 1 (Some 0) True) (NewLRUCacheInt 0) = Inr zeroCapacity"
    by (simp add: zeroCapacity_def)
  with zeroCapacity_reachable c t a p e r0 c0 t0 a0 z k show ?thesis by blast
qed

section \<open>C5: the router's Capacity accessor\<close>

text \<open>
  C5. The router's \<^verbatim>\<open>Capacity\<close> is documented as returning the cache's maximum capacity,
  and \<^verbatim>\<open>Stats\<close> sums the shards' capacities; but the loop of \<^verbatim>\<open>Capacity\<close> adds up
  \<^verbatim>\<open>Size()\<close> of each shard. On a fresh router of 2 shards and capacity 10 it answers 0,
  while \<^verbatim>\<open>Stats\<close> reports the capacity 10.
\<close>

theorem ShardCapacity_sums_sizes:
  "ShardCapacity (NewShardLRUCacheKeyUint64 2 10) = 0 \<and>
   ShardStats (NewShardLRUCacheKeyUint64 2 10) = (0, 0, 10)"
  by (simp add: shard_eval_defs)

section \<open>C6: the key is first in Keys after Get and Set\<close>




section \<open>C7: Get on a key that is not indexed\<close>

text \<open>
  C7. The claim: for every \<^verbatim>\<open>Get(k)\<close> on a key that is not indexed, a configured miss-loader
  is called with \<open>k\<close>; when it reports \<^verbatim>\<open>(v, true)\<close> the value is inserted as by \<^verbatim>\<open>Set\<close> and
  \<^verbatim>\<open>(v, true)\<close> is returned; when it reports false, or when there is no loader, not found
  is returned and nothing is inserted; a miss is never an error.

  The code breaks this on an engine built with a negative capacity. On
  \<^verbatim>\<open>NewLRUCacheInt(-1)\<close> with a loader that finds key 12, \<^verbatim>\<open>Get(12)\<close> runs \<^verbatim>\<open>set\<close>, \<^verbatim>\<open>addNew\<close>
  and \<^verbatim>\<open>checkCapacity\<close>: the loop evicts the new entry (size 1 is above -1) and goes
  round again (size 0 is above -1) on the empty list, where \<^verbatim>\<open>Back()\<close> is \<^verbatim>\<open>nil\<close> and
  \<^verbatim>\<open>delElem.Value\<close> panics. \<^verbatim>\<open>Get\<close> returns nothing. The loop says of itself that it is
  partially duplicated from \<^verbatim>\<open>Delete\<close>, which does test its element for \<^verbatim>\<open>nil\<close>.
\<close>

theorem Get_loader_hit_panics_on_negative_capacity:
  "lru_table (OnMiss (Some onlyKey12) (NewLRUCacheInt (- 1))) 12 = None \<and>
   lru_onMiss (OnMiss (Some onlyKey12) (NewLRUCacheInt (- 1))) = Some onlyKey12 \<and>
   onlyKey12 12 = (Obj 300 None False, True) \<and>
   Get 12 (OnMiss (Some onlyKey12) (NewLRUCacheInt (- 1))) = Inl NilPointerDereference"
  by (simp add: onlyKey12_def op_eval_defs eval_defs checkCapacity.simps)

text \<open>
  What the code does do, for a key that is not indexed: without a miss-loader \<^verbatim>\<open>Get\<close>
  returns \<^verbatim>\<open>(nil, false)\<close> and changes nothing; with a loader, the loader is called with
  the key; when it reports \<^verbatim>\<open>(v, false)\<close>, \<^verbatim>\<open>Get\<close> returns that pair, not found, and changes
  nothing; when it reports \<^verbatim>\<open>(v, true)\<close>, \<^verbatim>\<open>Get\<close> does to the engine what \<^verbatim>\<open>Set(k, v)\<close> does,
  which is the insertion of a new entry, and returns \<^verbatim>\<open>(v, true)\<close> if that returns. The
  two not-found outcomes are ordinary returns, never a panic; the insertion returns
  whenever the index and the running total are consistent and the capacity is not
  negative.
\<close>

lemma Get_on_miss:
  assumes "lru_table lru k = None"
  shows "(lru_onMiss lru = None \<longrightarrow> Get k lru = Inr ((NilValue, False), lru)) \<and>
         (lru_onMiss lru = Some onMiss \<and> onMiss k = (v, False) \<longrightarrow>
            Get k lru = Inr ((v, False), lru)) \<and>
         (lru_onMiss lru = Some onMiss \<and> onMiss k = (v, True) \<longrightarrow>
            Get k lru = map_sum id (Pair (v, True)) (Set_lru k v lru) \<and>
            Set_lru k v lru = addNew k v lru \<and>
            (index_inv lru \<and> size_inv lru \<and> 0 \<le>s lru_capacity lru \<longrightarrow>
               (\<exists>lru'. Get k lru = Inr ((v, True), lru'))))"
proof (intro conjI impI)
  assume "lru_onMiss lru = None"
  with assms show "Get k lru = Inr ((NilValue, False), lru)" by (simp add: Get_def)
next
  assume "lru_onMiss lru = Some onMiss \<and> onMiss k = (v, False)"
  with assms show "Get k lru = Inr ((v, False), lru)" by (simp add: Get_def)
next
  assume a: "lru_onMiss lru = Some onMiss \<and> onMiss k = (v, True)"
  with assms show g: "Get k lru = map_sum id (Pair (v, True)) (Set_lru k v lru)"
    by (simp add: Get_def Set_lru_def split: sum.splits)
  from assms show "Set_lru k v lru = addNew k v lru" by (simp add: Set_lru_def set_lru_def)
  assume "index_inv lru \<and> size_inv lru \<and> 0 \<le>s lru_capacity lru"
  then obtain fin where "set_lru k v lru = Inr fin" using set_lru_returns by blast
  with g show "\<exists>lru'. Get k lru = Inr ((v, True), lru')" by (simp add: Set_lru_def)
qed

text \<open>
  On \<open>twoEntries\<close> with the loader \<open>onlyKey12\<close>: \<^verbatim>\<open>Get(12)\<close> returns the loaded value and
  leaves the keys 12, 11 (key 10 is evicted); \<^verbatim>\<open>Get(13)\<close> reports not found and changes
  nothing; so does \<^verbatim>\<open>Get(13)\<close> without a loader.
\<close>

lemma Get_on_miss_example:
  "lru_table (OnMiss (Some onlyKey12) twoEntries) 12 = None \<and>
   lru_table (OnMiss (Some onlyKey12) twoEntries) 13 = None \<and>
   lru_table twoEntries 13 = None \<and>
   index_inv (OnMiss (Some onlyKey12) twoEntries) \<and>
   size_inv (OnMiss (Some onlyKey12) twoEntries) \<and>
   0 \<le>s lru_capacity (OnMiss (Some onlyKey12) twoEntries) \<and>
   Get 12 (OnMiss (Some onlyKey12) twoEntries)
     = Inr ((Obj 300 None False, True),
            evictTail 1 (addNew_pushed 12 (Obj 300 None False)
                           (OnMiss (Some onlyKey12) twoEntries))) \<and>
   Keys (evictTail 1 (addNew_pushed 12 (Obj 300 None False)
                           (OnMiss (Some onlyKey12) twoEntries))) = [12, 11] \<and>
   Get 13 (OnMiss (Some onlyKey12) twoEntries)
     = Inr ((Obj 300 None False, False), OnMiss (Some onlyKey12) twoEntries) \<and>
   Get 13 twoEntries = Inr ((NilValue, False), twoEntries)"
proof -
  let ?L = "OnMiss (Some onlyKey12) twoEntries"
  let ?v = "Obj 300 None False"
  have t: "lru_table ?L 12 = None" "lru_table ?L 13 = None" "lru_table twoEntries 13 = None"
    by (simp_all add: OnMiss_def twoEntries_def)
  have o: "lru_onMiss ?L = Some onlyKey12" "onlyKey12 12 = (?v, True)"
    "onlyKey12 13 = (?v, False)" "lru_onMiss twoEntries = None"
    by (simp_all add: OnMiss_def twoEntries_def onlyKey12_def)
  have i: "index_inv ?L" using twoEntries_index_inv by (simp add: OnMiss_def index_inv_def)
  have s: "size_inv ?L"
    by (simp add: OnMiss_def twoEntries_def size_inv_def entrySizes_def)
  have c: "0 \<le>s lru_capacity ?L" by (simp add: OnMiss_def twoEntries_def word_sle_eq)
  have a: "addNew 12 ?v ?L = Inr (evictTail 1 (addNew_pushed 12 ?v ?L))"
    by (simp add: OnMiss_def twoEntries_def eval_defs spec_defs checkCapacity.simps)
  have k: "Keys (evictTail 1 (addNew_pushed 12 ?v ?L)) = [12, 11]"
    by (simp add: OnMiss_def twoEntries_def eval_defs spec_defs Keys_def)
  from Get_on_miss[OF t(1), of onlyKey12 ?v] o a
  have g12: "Get 12 ?L = Inr ((?v, True), evictTail 1 (addNew_pushed 12 ?v ?L))" by simp
  from Get_on_miss[OF t(2), of onlyKey12 ?v] o
  have g13: "Get 13 ?L = Inr ((?v, False), ?L)" by simp
  from Get_on_miss[OF t(3)] o
  have g13': "Get 13 twoEntries = Inr ((NilValue, False), twoEntries)" by simp
  from t i s c g12 k g13 g13' show ?thesis by blast
qed

section \<open>C8: SetIfAbsent twice\<close>

text \<open>
  C8 as stated fails: on \<open>twoEntries\<close> (capacity 2), \<^verbatim>\<open>SetIfAbsent(12, v1)\<close> with a value of
  size 5 inserts the entry and evicts it in the same call, so \<^verbatim>\<open>SetIfAbsent(12, v2)\<close> finds
  the key absent and inserts \<open>v2\<close>: the value of the second call is the one in place.
\<close>

theorem SetIfAbsent_twice_counterexample:
  "SetIfAbsent 12 (Obj 200 (Some 5) False) twoEntries
     = Inr (evictTail 3 (addNew_pushed 12 (Obj 200 (Some 5) False) twoEntries)) \<and>
   SetIfAbsent 12 (Obj 201 None False)
       (evictTail 3 (addNew_pushed 12 (Obj 200 (Some 5) False) twoEntries))
     = Inr (addNew_pushed 12 (Obj 201 None False)
              (evictTail 3 (addNew_pushed 12 (Obj 200 (Some 5) False) twoEntries))) \<and>
   Values (addNew_pushed 12 (Obj 201 None False)
              (evictTail 3 (addNew_pushed 12 (Obj 200 (Some 5) False) twoEntries)))
     = [Obj 201 None False]"
  by (simp add: twoEntries_def op_eval_defs eval_defs spec_defs checkCapacity.simps
      numeral_3_eq_3)

text \<open>
  C8, amended. When the index is consistent and \<open>k\<close> is indexed once \<^verbatim>\<open>SetIfAbsent(k, v1)\<close>
  has completed (it was indexed before, or the call inserted it and the capacity loop did
  not evict it), \<^verbatim>\<open>SetIfAbsent(k, v2)\<close> changes nothing but the order of the list: it
  moves the entry to the front, fires no purge notification and leaves the entry's value
  and recorded size as the first call left them, \<open>v2\<close> being discarded. The value is
  \<open>v1\<close>, with the size of \<open>v1\<close>, when the first call inserted it, and the value held
  before when \<open>k\<close> was indexed already.
\<close>

theorem SetIfAbsent_twice:
  assumes inv: "index_inv lru" and first: "SetIfAbsent k v1 lru = Inr mid"
    and idx: "lru_table mid k = Some e"
  shows "SetIfAbsent k v2 mid = Inr (moveToFront e mid) \<and>
         mid\<lparr>lru_list := lru_list (moveToFront e mid)\<rparr> = moveToFront e mid \<and>
         lru_purged (moveToFront e mid) = lru_purged mid \<and>
         lru_elems (moveToFront e mid) e = lru_elems mid e \<and>
         (\<exists>ks. Keys (moveToFront e mid) = k # ks) \<and>
         Get k (moveToFront e mid)
           = Inr ((entry_value (lru_elems mid e), True), moveToFront e mid) \<and>
         (lru_table lru k = None \<longrightarrow>
            entry_value (lru_elems mid e) = v1 \<and> entry_size (lru_elems mid e) = getSize v1) \<and>
         (lru_table lru k \<noteq> None \<longrightarrow>
            lru_table lru k = Some e \<and> lru_elems mid e = lru_elems lru e)"
proof (intro conjI impI)
  note mi = SetIfAbsent_index_inv[OF inv first]
  from index_inv_tableD[OF mi idx]
  have e: "e \<in> set (lru_list mid)" and ek: "entry_key (lru_elems mid e) = k" by simp_all
  show "SetIfAbsent k v2 mid = Inr (moveToFront e mid)" using idx by (simp add: SetIfAbsent_def)
  show "mid\<lparr>lru_list := lru_list (moveToFront e mid)\<rparr> = moveToFront e mid"
    by (simp add: moveToFront_def)
  show "lru_purged (moveToFront e mid) = lru_purged mid" by (simp add: moveToFront_def)
  show "lru_elems (moveToFront e mid) e = lru_elems mid e" by (simp add: moveToFront_def)
  show "\<exists>ks. Keys (moveToFront e mid) = k # ks"
    using Keys_Cons[OF moveToFront_list[OF e]] ek by (simp add: moveToFront_def)
  have "list_MoveToFront e (list_MoveToFront e (lru_list mid)) = list_MoveToFront e (lru_list mid)"
    using e by (simp add: list_MoveToFront_def)
  then show "Get k (moveToFront e mid)
      = Inr ((entry_value (lru_elems mid e), True), moveToFront e mid)"
    using idx by (simp add: Get_def Let_def moveToFront_def)
  {
    assume n: "lru_table lru k = None"
    with first have "addNew k v1 lru = Inr mid" by (simp add: SetIfAbsent_def)
    from addNew_entry(2)[OF inv n this idx]
    show "entry_value (lru_elems mid e) = v1" "entry_size (lru_elems mid e) = getSize v1"
      by simp_all
  }
  {
    assume "lru_table lru k \<noteq> None"
    then obtain e' where s: "lru_table lru k = Some e'" by blast
    with first have m: "mid = moveToFront e' lru" by (simp add: SetIfAbsent_def)
    with idx s have "e = e'" by (simp add: moveToFront_def)
    with s m show "lru_table lru k = Some e" "lru_elems mid e = lru_elems lru e"
      by (simp_all add: moveToFront_def)
  }
qed

text \<open>
  On \<open>twoEntries\<close>: \<^verbatim>\<open>SetIfAbsent(12, v1)\<close> with a plain value inserts it (evicting key 10);
  \<^verbatim>\<open>SetIfAbsent(12, v2)\<close> with a value of size 7 then leaves \<open>v1\<close> in place, first.
\<close>

theorem SetIfAbsent_twice_witness:
  "index_inv twoEntries \<and>
   SetIfAbsent 12 (Obj 200 None False) twoEntries
     = Inr (evictTail 1 (addNew_pushed 12 (Obj 200 None False) twoEntries)) \<and>
   lru_table (evictTail 1 (addNew_pushed 12 (Obj 200 None False) twoEntries)) 12 = Some 2 \<and>
   lru_table twoEntries 12 = None \<and>
   SetIfAbsent 12 (Obj 201 (Some 7) False)
       (evictTail 1 (addNew_pushed 12 (Obj 200 None False) twoEntries))
     = Inr (moveToFront 2 (evictTail 1 (addNew_pushed 12 (Obj 200 None False) twoEntries))) \<and>
   Items (moveToFront 2 (evictTail 1 (addNew_pushed 12 (Obj 200 None False) twoEntries)))
     = [(12, Obj 200 None False), (11, Obj 101 (Some 1) False)] \<and>
   entry_value (lru_elems (evictTail 1 (addNew_pushed 12 (Obj 200 None False) twoEntries)) 2)
     = Obj 200 None False"
proof -
  let ?mid = "evictTail 1 (addNew_pushed 12 (Obj 200 None False) twoEntries)"
  have f: "SetIfAbsent 12 (Obj 200 None False) twoEntries = Inr ?mid"
    by (simp add: twoEntries_def op_eval_defs eval_defs spec_defs checkCapacity.simps)
  have t: "lru_table ?mid 12 = Some 2" "lru_table twoEntries 12 = None"
    by (simp_all add: twoEntries_def eval_defs spec_defs)
  have i: "Items (moveToFront 2 ?mid) = [(12, Obj 200 None False), (11, Obj 101 (Some 1) False)]"
    by (simp add: twoEntries_def eval_defs spec_defs Items_def)
  note th = SetIfAbsent_twice[OF twoEntries_index_inv f t(1), of "Obj 201 (Some 7) False"]
  from th have "SetIfAbsent 12 (Obj 201 (Some 7) False) ?mid = Inr (moveToFront 2 ?mid)"
    by blast
  moreover from th t(2) have "entry_value (lru_elems ?mid 2) = Obj 200 None False" by blast
  ultimately show ?thesis using twoEntries_index_inv f t i by blast
qed

section \<open>C9: how the router divides a capacity among its shards\<close>

text \<open>
  C9. The claim: for every shard count (coerced to at least 1) and every total capacity,
  the constructor and the router's \<^verbatim>\<open>SetCapacity\<close> both give every shard but the last the
  quotient of the integer division, the last shard the quotient plus the remainder, and
  the shards' capacities add up to the total.

  The code breaks this for the router's \<^verbatim>\<open>SetCapacity\<close> with a negative total. On the
  router of 2 shards and capacity 10, \<^verbatim>\<open>SetCapacity(-7)\<close> computes the shares -3 and -4 and
  calls \<^verbatim>\<open>SetCapacity(-3)\<close> on the first shard, whose \<^verbatim>\<open>checkCapacity\<close> finds size 0 above
  -3 on an empty list: \<^verbatim>\<open>Back()\<close> is \<^verbatim>\<open>nil\<close> and \<^verbatim>\<open>delElem.Value\<close> panics. The second shard
  is never given its share and keeps the capacity 5. The router was left by its
  constructor in a consistent state: two empty shards of running total 0.
\<close>

theorem router_SetCapacity_panics_on_negative_capacity:
  "shard_inv (NewShardLRUCacheKeyUint64 2 10) \<and>
   map lru_size (cachelist (NewShardLRUCacheKeyUint64 2 10)) = [0, 0] \<and>
   map entrySizes (cachelist (NewShardLRUCacheKeyUint64 2 10)) = [[], []] \<and>
   map lru_capacity (cachelist (NewShardLRUCacheKeyUint64 2 10)) = [5, 5] \<and>
   expectedCapacities (shardCount (NewShardLRUCacheKeyUint64 2 10)) (- 7) = [- 3, - 4] \<and>
   SetCapacity (- 3) (NewLRUCacheInt 5) = Inl NilPointerDereference \<and>
   ShardSetCapacity (- 7) (NewShardLRUCacheKeyUint64 2 10) = Inl NilPointerDereference"
  by (simp add: shard_eval_defs shard_inv_def entrySizes_def checkCapacity.simps
      list_Back_def)

text \<open>
  What the code does do. The constructor coerces the shard count to at least 1. Both the
  constructor and the router's \<^verbatim>\<open>SetCapacity\<close>, when it returns, give every shard but the
  last the quotient of Go's integer division of the capacity by the shard count and the
  last shard that quotient plus the remainder, so the shards' capacities add up to the
  capacity asked for (in \<^verbatim>\<open>int64\<close> arithmetic), which is also the capacity that the
  router's \<^verbatim>\<open>Stats\<close> reports. \<^verbatim>\<open>SetCapacity\<close> returns whenever the capacity is not negative
  and every shard's running total is the sum of its entries' sizes.
\<close>

lemma router_capacity_split:
  "shardCount (NewShardLRUCacheKeyUint64 sc capacity) = (if sc <s 1 then 1 else sc) \<and>
   map lru_capacity (cachelist (NewShardLRUCacheKeyUint64 sc capacity))
     = expectedCapacities (shardCount (NewShardLRUCacheKeyUint64 sc capacity)) capacity \<and>
   sum_list (map lru_capacity (cachelist (NewShardLRUCacheKeyUint64 sc capacity))) = capacity \<and>
   snd (snd (ShardStats (NewShardLRUCacheKeyUint64 sc capacity))) = capacity \<and>
   (shard_inv lru \<and> ShardSetCapacity capacity lru = Inr lru' \<longrightarrow>
      shardCount lru' = shardCount lru \<and>
      map lru_capacity (cachelist lru') = expectedCapacities (shardCount lru) capacity \<and>
      sum_list (map lru_capacity (cachelist lru')) = capacity) \<and>
   (shard_inv lru \<and> shards_size_inv lru \<and> 0 \<le>s capacity \<longrightarrow>
      (\<exists>lru'. ShardSetCapacity capacity lru = Inr lru'))"
proof (intro conjI impI)
  show "shardCount (NewShardLRUCacheKeyUint64 sc capacity) = (if sc <s 1 then 1 else sc)"
    by (simp add: NewShardLRUCacheKeyUint64_def Let_def)
  show n: "map lru_capacity (cachelist (NewShardLRUCacheKeyUint64 sc capacity))
     = expectedCapacities (shardCount (NewShardLRUCacheKeyUint64 sc capacity)) capacity"
    by (rule NewShard_capacities)
  have "1 \<le>s shardCount (NewShardLRUCacheKeyUint64 sc capacity)"
    using NewShard_inv[of sc capacity] by (simp add: shard_inv_def)
  then show s: "sum_list (map lru_capacity (cachelist (NewShardLRUCacheKeyUint64 sc capacity)))
      = capacity"
    unfolding n by (rule sum_expectedCapacities)
  show "snd (snd (ShardStats (NewShardLRUCacheKeyUint64 sc capacity))) = capacity"
    unfolding ShardStats_sums using s by simp
next
  assume a: "shard_inv lru \<and> ShardSetCapacity capacity lru = Inr lru'"
  then have inv: "shard_inv lru" and res: "ShardSetCapacity capacity lru = Inr lru'"
    by simp_all
  show "shardCount lru' = shardCount lru"
    by (rule ShardSetCapacity_capacities(2)[OF inv res])
  show c: "map lru_capacity (cachelist lru') = expectedCapacities (shardCount lru) capacity"
    by (rule ShardSetCapacity_capacities(1)[OF inv res])
  from inv have "1 \<le>s shardCount lru" by (simp add: shard_inv_def)
  then show "sum_list (map lru_capacity (cachelist lru')) = capacity"
    unfolding c by (rule sum_expectedCapacities)
next
  assume "shard_inv lru \<and> shards_size_inv lru \<and> 0 \<le>s capacity"
  then show "\<exists>lru'. ShardSetCapacity capacity lru = Inr lru'"
    using ShardSetCapacity_returns by blast
qed

text \<open>
  A router of 3 shards and capacity 10 has the capacities 3, 3, 4; set to 7 they become
  2, 2, 3. With a negative capacity the division truncates towards zero: -7 over 2 shards
  is -3 and -4.
\<close>

lemma router_capacity_split_example:
  "shard_inv (NewShardLRUCacheKeyUint64 3 10) \<and>
   shards_size_inv (NewShardLRUCacheKeyUint64 3 10) \<and>
   (0 :: int64) \<le>s 7 \<and>
   ShardSetCapacity 7 (NewShardLRUCacheKeyUint64 3 10)
     = Inr \<lparr>shardCount = 3, cachelist = map NewLRUCacheInt [2, 2, 3]\<rparr> \<and>
   map lru_capacity (cachelist \<lparr>shardCount = 3, cachelist = map NewLRUCacheInt [2, 2, 3]\<rparr>)
     = expectedCapacities (shardCount (NewShardLRUCacheKeyUint64 3 10)) 7 \<and>
   expectedCapacities (shardCount (NewShardLRUCacheKeyUint64 3 10)) 7 = [2, 2, 3] \<and>
   sum_list (map lru_capacity
     (cachelist \<lparr>shardCount = 3, cachelist = map NewLRUCacheInt [2, 2, 3]\<rparr>)) = 7 \<and>
   map lru_capacity (cachelist (NewShardLRUCacheKeyUint64 3 10)) = [3, 3, 4] \<and>
   map lru_capacity (cachelist (NewShardLRUCacheKeyUint64 2 (- 7))) = [- 3, - 4]"
proof -
  let ?r = "NewShardLRUCacheKeyUint64 3 10"
  let ?r' = "\<lparr>shardCount = 3, cachelist = map NewLRUCacheInt [2, 2, 3]\<rparr>"
  have i: "shard_inv ?r" by (rule NewShard_inv)
  have s: "shards_size_inv ?r"
    by (simp add: shard_eval_defs shards_size_inv_def size_inv_def entrySizes_def)
  have c: "(0 :: int64) \<le>s 7" by (simp add: word_sle_eq)
  have r: "ShardSetCapacity 7 ?r = Inr ?r'"
    by (simp add: shard_eval_defs checkCapacity.simps)
  have e: "expectedCapacities (shardCount ?r) 7 = [2, 2, 3]"
    by (simp add: shard_eval_defs)
  have n: "map lru_capacity (cachelist ?r) = [3, 3, 4]"
    by (simp add: shard_eval_defs)
  have m: "map lru_capacity (cachelist (NewShardLRUCacheKeyUint64 2 (- 7))) = [- 3, - 4]"
    by (simp add: shard_eval_defs)
  from router_capacity_split[of 3 7 ?r ?r'] i r
  have "map lru_capacity (cachelist ?r') = expectedCapacities (shardCount ?r) 7"
    and "sum_list (map lru_capacity (cachelist ?r')) = 7"
    by blast+
  with i s c r e n m show ?thesis by blast
qed

section \<open>C10: a loaded value is returned even when it does not stay\<close>

text \<open>
  C10. The claim: on every engine with a miss-loader, when \<^verbatim>\<open>Get(k)\<close> on a key that is not
  indexed calls the loader and the loader reports \<^verbatim>\<open>(v, true)\<close>, \<^verbatim>\<open>Get\<close> returns \<^verbatim>\<open>(v, true)\<close>
  even if the capacity loop evicts the new entry within the same call, so that a \<^verbatim>\<open>Get(k)\<close>
  that follows can report not found.

  The code breaks this on an engine built with a negative capacity, where every loaded
  entry is evicted in the same call. On \<^verbatim>\<open>NewLRUCacheInt(-3)\<close> with a loader whose value for
  key 12 has size 5, \<^verbatim>\<open>Get(12)\<close> inserts the entry, the loop of \<^verbatim>\<open>checkCapacity\<close> evicts it
  and notifies it (size 5 is above -3) and goes round again (size 0 is above -3) on the
  empty list, where \<^verbatim>\<open>Back()\<close> is \<^verbatim>\<open>nil\<close> and \<^verbatim>\<open>delElem.Value\<close> panics: \<^verbatim>\<open>Get\<close> returns
  nothing to the caller.
\<close>

theorem Get_evicted_load_panics_on_negative_capacity:
  "lru_table (OnMiss (Some bigFor12) (NewLRUCacheInt (- 3))) 12 = None \<and>
   lru_onMiss (OnMiss (Some bigFor12) (NewLRUCacheInt (- 3))) = Some bigFor12 \<and>
   bigFor12 12 = (Obj 400 (Some 5) True, True) \<and>
   lru_capacity (OnMiss (Some bigFor12) (NewLRUCacheInt (- 3)))
     <s getSize (Obj 400 (Some 5) True) \<and>
   Get 12 (OnMiss (Some bigFor12) (NewLRUCacheInt (- 3))) = Inl NilPointerDereference"
  by (simp add: bigFor12_def op_eval_defs eval_defs checkCapacity.simps)

text \<open>
  What the code does do. When \<^verbatim>\<open>Get(k)\<close> on a key that is not indexed calls the miss-loader
  and the loader reports \<^verbatim>\<open>(v, true)\<close>, every \<^verbatim>\<open>Get\<close> that returns returns \<^verbatim>\<open>(v, true)\<close>,
  whatever the capacity loop did. When the size of \<open>v\<close> exceeds the capacity, on a
  consistent engine with a capacity that is not negative and sizes that do not wrap
  around, the call returns \<^verbatim>\<open>(v, true)\<close> and leaves the cache empty, \<open>k\<close> not indexed: a
  \<^verbatim>\<open>Get(k)\<close> that follows, without a loader or with a loader that reports nothing for \<open>k\<close>,
  reports not found.
\<close>

lemma Get_returns_loaded_value_even_if_evicted:
  assumes miss: "lru_table lru k = None"
    and ld: "lru_onMiss lru = Some onMiss" "onMiss k = (v, True)"
  shows "(Get k lru = Inr (r, fin) \<longrightarrow> r = (v, True)) \<and>
         (index_inv lru \<and> sized lru \<and> 0 \<le>s lru_capacity lru \<and> admissible k v lru \<and>
          lru_capacity lru <s getSize v \<longrightarrow>
            (\<exists>fin. Get k lru = Inr ((v, True), fin) \<and> lru_table fin k = None \<and> Keys fin = [] \<and>
               Get k (OnMiss None fin) = Inr ((NilValue, False), OnMiss None fin) \<and>
               (\<forall>g u. g k = (u, False) \<longrightarrow>
                  Get k (OnMiss (Some g) fin) = Inr ((u, False), OnMiss (Some g) fin))))"
proof (intro conjI impI)
  have g: "Get k lru = map_sum id (Pair (v, True)) (addNew k v lru)"
    using miss ld by (simp add: Get_def set_lru_def split: sum.splits)
  show "r = (v, True)" if "Get k lru = Inr (r, fin)"
    using that unfolding g by (cases "addNew k v lru") auto
  assume "index_inv lru \<and> sized lru \<and> 0 \<le>s lru_capacity lru \<and> admissible k v lru \<and>
          lru_capacity lru <s getSize v"
  with oversized_insert[OF _ _ _ miss, of v] obtain fin where
    a: "addNew k v lru = Inr fin" and l: "lru_list fin = []" and t: "lru_table fin = Map.empty"
    by blast
  have "Get k lru = Inr ((v, True), fin)" using g a by simp
  moreover have "lru_table fin k = None" using t by simp
  moreover have "Keys fin = []" using l by (simp add: Keys_def)
  moreover have "Get k (OnMiss None fin) = Inr ((NilValue, False), OnMiss None fin)"
    using t by (simp add: Get_def OnMiss_def)
  moreover have "Get k (OnMiss (Some g) fin) = Inr ((u, False), OnMiss (Some g) fin)"
    if "g k = (u, False)" for g u
    using t that by (simp add: Get_def OnMiss_def)
  ultimately show "\<exists>fin. Get k lru = Inr ((v, True), fin) \<and> lru_table fin k = None \<and>
      Keys fin = [] \<and>
      Get k (OnMiss None fin) = Inr ((NilValue, False), OnMiss None fin) \<and>
      (\<forall>g u. g k = (u, False) \<longrightarrow>
         Get k (OnMiss (Some g) fin) = Inr ((u, False), OnMiss (Some g) fin))"
    by blast
qed

text \<open>
  On \<open>twoEntries\<close> (capacity 2) with the loader \<open>bigFor12\<close>, whose value has size 5:
  \<^verbatim>\<open>Get(12)\<close> returns the value as found and leaves nothing cached.
\<close>

lemma Get_returns_loaded_value_even_if_evicted_example:
  "lru_table (OnMiss (Some bigFor12) twoEntries) 12 = None \<and>
   lru_onMiss (OnMiss (Some bigFor12) twoEntries) = Some bigFor12 \<and>
   bigFor12 12 = (Obj 400 (Some 5) True, True) \<and>
   index_inv (OnMiss (Some bigFor12) twoEntries) \<and>
   sized (OnMiss (Some bigFor12) twoEntries) \<and>
   0 \<le>s lru_capacity (OnMiss (Some bigFor12) twoEntries) \<and>
   admissible 12 (Obj 400 (Some 5) True) (OnMiss (Some bigFor12) twoEntries) \<and>
   lru_capacity (OnMiss (Some bigFor12) twoEntries) <s getSize (Obj 400 (Some 5) True) \<and>
   (\<exists>fin. Get 12 (OnMiss (Some bigFor12) twoEntries) = Inr ((Obj 400 (Some 5) True, True), fin) \<and>
      lru_table fin 12 = None \<and> Keys fin = [] \<and>
      Get 12 (OnMiss None fin) = Inr ((NilValue, False), OnMiss None fin))"
proof -
  let ?L = "OnMiss (Some bigFor12) twoEntries"
  let ?v = "Obj 400 (Some 5) True"
  have m: "lru_table ?L 12 = None" and o: "lru_onMiss ?L = Some bigFor12"
    and b: "bigFor12 12 = (?v, True)"
    by (simp_all add: OnMiss_def twoEntries_def bigFor12_def)
  have i: "index_inv ?L" using twoEntries_index_inv by (simp add: OnMiss_def index_inv_def)
  have s: "sized ?L" by (simp add: OnMiss_def twoEntries_def sized_def word_sle_eq)
  have c: "0 \<le>s lru_capacity ?L" by (simp add: OnMiss_def twoEntries_def word_sle_eq)
  have a: "admissible 12 ?v ?L"
    by (simp add: OnMiss_def twoEntries_def admissible_def replacedSize_def eval_defs)
  have g: "lru_capacity ?L <s getSize ?v" by (simp add: OnMiss_def twoEntries_def eval_defs)
  from Get_returns_loaded_value_even_if_evicted[OF m o b] i s c a g
  have "\<exists>fin. Get 12 ?L = Inr ((?v, True), fin) \<and> lru_table fin 12 = None \<and> Keys fin = [] \<and>
      Get 12 (OnMiss None fin) = Inr ((NilValue, False), OnMiss None fin)"
    by blast
  with m o b i s c a g show ?thesis by blast
qed

end
